theory Spec2Isabelle
  imports Main "HOL-Library.AList"
begin

section \<open>The stagecoach problem: data model\<close>

text \<open>
  The embedding follows the class \<^verbatim>\<open>StagecoachProblem\<close> of
  \<^verbatim>\<open>src/stagecoach_solver.py\<close>. Nodes are Python strings. A Python \<^verbatim>\<open>dict\<close> iterates
  in insertion order, and the inner loop of the solver depends on that order, so the
  dict of dicts \<^verbatim>\<open>edges\<close> is an association list of association lists. The two
  tables of the solver are only read and written by key, so they are maps.
\<close>

type_synonym node = string
type_synonym neighbors = "(node \<times> int) list"
type_synonym edge_dict = "(node \<times> neighbors) list"

text \<open>
  \<^verbatim>\<open>cost_to_go\<close> holds \<^verbatim>\<open>float('inf')\<close> or a Python integer; no other float is ever
  stored in it. Weights are Python integers, which are unbounded.
\<close>

datatype cost = Fin int | Infinite

datatype error = KeyError node | OverflowError | ValueError

record problem =
  default_edges :: edge_dict
  edges :: edge_dict
  cost_to_go :: "node \<rightharpoonup> cost"
  next_node :: "node \<rightharpoonup> node option"

text \<open>
  The constructor assigns \<^verbatim>\<open>stages\<close> and \<^verbatim>\<open>all_nodes\<close> once and no method writes them,
  so they are constants. \<^verbatim>\<open>default_edges\<close> is kept as a field, since \<^verbatim>\<open>reset_to_default\<close>
  reads it from the object.
\<close>

definition all_nodes :: "node list" where
  "all_nodes = [''A'', ''B'', ''C'', ''D'', ''E'', ''F'', ''G'', ''H'', ''I'', ''J'']"

definition stages :: "(nat \<times> node list) list" where
  "stages =
    [(0, [''A'']),
     (1, [''B'', ''C'', ''D'']),
     (2, [''E'', ''F'', ''G'']),
     (3, [''H'', ''I'']),
     (4, [''J''])]"

definition init_default_edges :: edge_dict where
  "init_default_edges =
    [(''A'', [(''B'', 2), (''C'', 4), (''D'', 3)]),
     (''B'', [(''E'', 7), (''F'', 4)]),
     (''C'', [(''E'', 6), (''F'', 3), (''G'', 4)]),
     (''D'', [(''F'', 1), (''G'', 5)]),
     (''E'', [(''H'', 1), (''I'', 6)]),
     (''F'', [(''H'', 6), (''I'', 3)]),
     (''G'', [(''H'', 3), (''I'', 3)]),
     (''H'', [(''J'', 3)]),
     (''I'', [(''J'', 4)]),
     (''J'', [])]"

text \<open>
  \<^verbatim>\<open>_deep_copy_edges\<close> builds a new outer dict whose values are new inner dicts
  (\<^verbatim>\<open>dict(neighbors)\<close>). The copy shares no mutable object with its argument, which is
  what allows \<^verbatim>\<open>edges\<close> and \<^verbatim>\<open>default_edges\<close> to be two separate values here.
\<close>

definition deep_copy_edges :: "edge_dict \<Rightarrow> edge_dict" where
  "deep_copy_edges es = map (\<lambda>(node, neighbors). (node, map (\<lambda>kv. kv) neighbors)) es"

definition init_problem :: problem where
  "init_problem =
    \<lparr>default_edges = init_default_edges,
     edges = deep_copy_edges init_default_edges,
     cost_to_go = Map.empty,
     next_node = Map.empty\<rparr>"

definition reset_to_default :: "problem \<Rightarrow> problem" where
  "reset_to_default s = s\<lparr>edges := deep_copy_edges (default_edges s)\<rparr>"

text \<open>
  \<^verbatim>\<open>set_edge_weight\<close>: the assignment is guarded by the two membership tests, and
  assigning to an existing key of a dict keeps the key's position.
\<close>

definition set_edge_weight :: "node \<Rightarrow> node \<Rightarrow> int \<Rightarrow> problem \<Rightarrow> problem" where
  "set_edge_weight from_node to_node weight s =
    (case map_of (edges s) from_node of
       None \<Rightarrow> s
     | Some nbs \<Rightarrow>
         (if map_of nbs to_node \<noteq> None
          then s\<lparr>edges := AList.update from_node (AList.update to_node weight nbs) (edges s)\<rparr>
          else s))"

text \<open>
  \<^verbatim>\<open>random.randint(a, b)\<close> belongs to the Python standard library. It returns an
  integer of \<open>[a, b]\<close>, both ends included, and raises \<^verbatim>\<open>ValueError\<close> when the range
  is empty. The random source is a parameter: an infinite sequence of raw draws, the
  \<open>k\<close>-th call reading the \<open>k\<close>-th draw.
\<close>

definition randint :: "int \<Rightarrow> int \<Rightarrow> nat \<Rightarrow> error + int" where
  "randint a b r = (if b < a then Inl ValueError else Inr (a + int r mod (b - a + 1)))"

text \<open>
  \<^verbatim>\<open>set_random_weights\<close> assigns the weights one at a time, so an exception leaves the
  weights assigned so far in place. The model returns the state reached together with
  the exception, if any.
\<close>

fun randomise_neighbors ::
  "(nat \<Rightarrow> nat) \<Rightarrow> int \<Rightarrow> int \<Rightarrow> nat \<Rightarrow> neighbors \<Rightarrow> neighbors \<times> nat \<times> error option" where
  "randomise_neighbors rnd min_val max_val k [] = ([], k, None)"
| "randomise_neighbors rnd min_val max_val k ((neighbor, w) # rest) =
    (case randint min_val max_val (rnd k) of
       Inl e \<Rightarrow> ((neighbor, w) # rest, k, Some e)
     | Inr x \<Rightarrow>
         (case randomise_neighbors rnd min_val max_val (Suc k) rest of
            (rest', k', err) \<Rightarrow> ((neighbor, x) # rest', k', err)))"

fun randomise_edges ::
  "(nat \<Rightarrow> nat) \<Rightarrow> int \<Rightarrow> int \<Rightarrow> nat \<Rightarrow> edge_dict \<Rightarrow> edge_dict \<times> nat \<times> error option" where
  "randomise_edges rnd min_val max_val k [] = ([], k, None)"
| "randomise_edges rnd min_val max_val k ((node, nbs) # rest) =
    (case randomise_neighbors rnd min_val max_val k nbs of
       (nbs', k', Some e) \<Rightarrow> ((node, nbs') # rest, k', Some e)
     | (nbs', k', None) \<Rightarrow>
         (case randomise_edges rnd min_val max_val k' rest of
            (rest', k'', err) \<Rightarrow> ((node, nbs') # rest', k'', err)))"

definition set_random_weights ::
  "(nat \<Rightarrow> nat) \<Rightarrow> int \<Rightarrow> int \<Rightarrow> problem \<Rightarrow> problem \<times> error option" where
  "set_random_weights rnd min_val max_val s =
    (case randomise_edges rnd min_val max_val 0 (edges s) of
       (es', k, err) \<Rightarrow> (s\<lparr>edges := es'\<rparr>, err))"

section \<open>Backward induction\<close>

text \<open>
  \<^verbatim>\<open>transition_cost + self.cost_to_go[neighbor]\<close> adds a Python integer to an
  integer or to \<^verbatim>\<open>float('inf')\<close>. The second converts the integer to a float first,
  which raises \<^verbatim>\<open>OverflowError\<close> for an integer that rounds beyond the largest double.
\<close>

definition fits_float :: "int \<Rightarrow> bool" where
  "fits_float w = (\<bar>w\<bar> < 2 ^ 1024 - 2 ^ 970)"

definition py_add :: "int \<Rightarrow> cost \<Rightarrow> error + cost" where
  "py_add w c =
    (case c of
       Fin k \<Rightarrow> Inr (Fin (w + k))
     | Infinite \<Rightarrow> if fits_float w then Inr Infinite else Inl OverflowError)"

fun cost_lt :: "cost \<Rightarrow> cost \<Rightarrow> bool" where
  "cost_lt (Fin a) (Fin b) = (a < b)"
| "cost_lt (Fin a) Infinite = True"
| "cost_lt Infinite c = False"

type_synonym tables = "(node \<rightharpoonup> cost) \<times> (node \<rightharpoonup> node option)"

text \<open>The inner loop, over \<^verbatim>\<open>neighbors.items()\<close>, for one \<^verbatim>\<open>current_node\<close>.\<close>

fun relax :: "node \<Rightarrow> neighbors \<Rightarrow> tables \<Rightarrow> error + tables" where
  "relax current_node [] t = Inr t"
| "relax current_node ((neighbor, transition_cost) # rest) (c, nx) =
    (case c neighbor of
       None \<Rightarrow> Inl (KeyError neighbor)
     | Some cn \<Rightarrow>
         (case py_add transition_cost cn of
            Inl e \<Rightarrow> Inl e
          | Inr total_cost \<Rightarrow>
              (case c current_node of
                 None \<Rightarrow> Inl (KeyError current_node)
               | Some cc \<Rightarrow>
                   if cost_lt total_cost cc
                   then relax current_node rest
                          (c(current_node \<mapsto> total_cost), nx(current_node \<mapsto> Some neighbor))
                   else relax current_node rest (c, nx))))"

text \<open>\<^verbatim>\<open>self.edges.get(current_node, {})\<close>\<close>

definition neighbors_of :: "edge_dict \<Rightarrow> node \<Rightarrow> neighbors" where
  "neighbors_of es u = (case map_of es u of None \<Rightarrow> [] | Some nbs \<Rightarrow> nbs)"

text \<open>The outer loop, over \<^verbatim>\<open>nodes_reversed\<close>.\<close>

fun backward :: "edge_dict \<Rightarrow> node list \<Rightarrow> tables \<Rightarrow> error + tables" where
  "backward es [] t = Inr t"
| "backward es (current_node # rest) t =
    (if current_node = ''J'' then backward es rest t
     else (case relax current_node (neighbors_of es current_node) t of
             Inl e \<Rightarrow> Inl e
           | Inr t' \<Rightarrow> backward es rest t'))"

definition initial_tables :: tables where
  "initial_tables =
    ((map_of (map (\<lambda>n. (n, Infinite)) all_nodes))(''J'' \<mapsto> Fin 0),
     map_of (map (\<lambda>n. (n, None)) all_nodes))"

definition solve_tables :: "edge_dict \<Rightarrow> error + tables" where
  "solve_tables es = backward es (rev all_nodes) initial_tables"

text \<open>
  \<^verbatim>\<open>_reconstruct_path\<close>: the \<^verbatim>\<open>while\<close> loop follows \<^verbatim>\<open>next_node.get(current)\<close>, which is
  \<^verbatim>\<open>None\<close> for a missing key as well as for a stored \<^verbatim>\<open>None\<close>. Nothing in the loop
  bounds the number of iterations, so the result is an option: \<open>None\<close> is a walk that
  never ends.
\<close>

definition dict_get :: "('k \<rightharpoonup> 'v option) \<Rightarrow> 'k \<Rightarrow> 'v option" where
  "dict_get d k = (case d k of None \<Rightarrow> None | Some v \<Rightarrow> v)"

partial_function (option) follow ::
  "(node \<rightharpoonup> node option) \<Rightarrow> node option \<Rightarrow> node list \<Rightarrow> node list option" where
  "follow nx current path =
    (case current of
       None \<Rightarrow> Some path
     | Some u \<Rightarrow> follow nx (dict_get nx u) (path @ [u]))"

definition reconstruct_path :: "problem \<Rightarrow> node list option" where
  "reconstruct_path s = follow (next_node s) (Some ''A'') []"

text \<open>
  \<^verbatim>\<open>solve_backward_induction\<close> returns the updated object, the cost of \<^verbatim>\<open>'A'\<close> and the
  path. An exception of the loops is returned without the half-written tables.
\<close>

definition solve_backward_induction :: "problem \<Rightarrow> (error + problem \<times> cost \<times> node list) option" where
  "solve_backward_induction s =
    (case solve_tables (edges s) of
       Inl e \<Rightarrow> Some (Inl e)
     | Inr (c, nx) \<Rightarrow>
         (case reconstruct_path (s\<lparr>cost_to_go := c, next_node := nx\<rparr>) of
            None \<Rightarrow> None
          | Some optimal_path \<Rightarrow>
              (case c ''A'' of
                 None \<Rightarrow> Some (Inl (KeyError ''A''))
               | Some ca \<Rightarrow> Some (Inr (s\<lparr>cost_to_go := c, next_node := nx\<rparr>, ca, optimal_path)))))"

text \<open>\<^verbatim>\<open>get_path_details\<close>: \<^verbatim>\<open>self.edges[from_node][to_node]\<close> raises on a missing key.\<close>

fun details :: "edge_dict \<Rightarrow> node list \<Rightarrow> error + (node \<times> node \<times> int) list" where
  "details es (from_node # to_node # rest) =
    (case map_of es from_node of
       None \<Rightarrow> Inl (KeyError from_node)
     | Some nbs \<Rightarrow>
         (case map_of nbs to_node of
            None \<Rightarrow> Inl (KeyError to_node)
          | Some w \<Rightarrow>
              (case details es (to_node # rest) of
                 Inl e \<Rightarrow> Inl e
               | Inr ds \<Rightarrow> Inr ((from_node, to_node, w) # ds))))"
| "details es path = Inr []"

definition get_path_details :: "problem \<Rightarrow> (error + (node \<times> node \<times> int) list) option" where
  "get_path_details s =
    (case reconstruct_path s of
       None \<Rightarrow> None
     | Some path \<Rightarrow> Some (details (edges s) path))"

section \<open>Notions used to state and prove the properties\<close>

subsection \<open>Costs\<close>

text \<open>The sum of a weight and a cost, where the addition raises nothing.\<close>

definition cost_plus :: "int \<Rightarrow> cost \<Rightarrow> cost" where
  "cost_plus w c = (case c of Fin k \<Rightarrow> Fin (w + k) | Infinite \<Rightarrow> Infinite)"

text \<open>
  The order on costs is the test \<open>cost_lt\<close> of the inner loop; less-or-equal is its
  negation with the arguments exchanged.
\<close>

instantiation cost :: linorder
begin

definition less_cost :: "cost \<Rightarrow> cost \<Rightarrow> bool" where
  "less_cost a b = cost_lt a b"

definition less_eq_cost :: "cost \<Rightarrow> cost \<Rightarrow> bool" where
  "less_eq_cost a b = (\<not> cost_lt b a)"

instance
proof
  fix x y z :: cost
  show "(x < y) = (x \<le> y \<and> \<not> y \<le> x)"
    by (cases x; cases y) (auto simp: less_cost_def less_eq_cost_def)
  show "x \<le> x"
    by (cases x) (auto simp: less_eq_cost_def)
  show "x \<le> y \<Longrightarrow> y \<le> z \<Longrightarrow> x \<le> z"
    by (cases x; cases y; cases z) (auto simp: less_eq_cost_def)
  show "x \<le> y \<Longrightarrow> y \<le> x \<Longrightarrow> x = y"
    by (cases x; cases y) (auto simp: less_eq_cost_def)
  show "x \<le> y \<or> y \<le> x"
    by (cases x; cases y) (auto simp: less_eq_cost_def)
qed

end

text \<open>Reading the cost table at a node; a missing key counts as infinite.\<close>

definition cval :: "(node \<rightharpoonup> cost) \<Rightarrow> node \<Rightarrow> cost" where
  "cval c v = (case c v of None \<Rightarrow> Infinite | Some x \<Rightarrow> x)"

text \<open>
  The inner loop as a function of the costs of the neighbours alone: it carries the
  best cost found so far and the neighbour that gave it.
\<close>

fun scan :: "(node \<Rightarrow> cost) \<Rightarrow> neighbors \<Rightarrow> cost \<times> node option \<Rightarrow> cost \<times> node option" where
  "scan f [] best = best"
| "scan f ((v, w) # rest) (cu, nu) =
    (if cost_plus w (f v) < cu
     then scan f rest (cost_plus w (f v), Some v)
     else scan f rest (cu, nu))"

subsection \<open>Topologies\<close>

text \<open>
  The topology of an edges dict: its keys, each with the keys of its inner dict, in
  the order of the dicts. The weights are left out.
\<close>

definition topology :: "edge_dict \<Rightarrow> (node \<times> node list) list" where
  "topology es = map (\<lambda>(u, nbs). (u, map fst nbs)) es"

definition successors :: "(node \<times> node list) list \<Rightarrow> node \<Rightarrow> node list" where
  "successors tp u = (case map_of tp u of None \<Rightarrow> [] | Some vs \<Rightarrow> vs)"

text \<open>
  The objects that the methods of the class can produce have the topology of the
  constructor, whatever their weights are.
\<close>

definition has_default_topology :: "edge_dict \<Rightarrow> bool" where
  "has_default_topology es = (topology es = topology init_default_edges)"

text \<open>
  The outer loop handles the nodes in the order of \<open>rev all_nodes\<close>. An edges dict is
  staged when every node of that list has all its neighbours among the nodes handled
  before it, and its inner dict has no repeated key (as any Python dict).
\<close>

fun staged_from :: "(node \<times> node list) list \<Rightarrow> node list \<Rightarrow> node list \<Rightarrow> bool" where
  "staged_from tp seen [] = True"
| "staged_from tp seen (u # us) =
    (u \<notin> set seen \<and> set (successors tp u) \<subseteq> set seen \<and> distinct (successors tp u)
     \<and> staged_from tp (u # seen) us)"

definition staged :: "edge_dict \<Rightarrow> bool" where
  "staged es = staged_from (topology es) [] (rev all_nodes)"

text \<open>Every node but the sink has an edge.\<close>

definition no_dead_end :: "edge_dict \<Rightarrow> bool" where
  "no_dead_end es = (\<forall>u \<in> set all_nodes. u \<noteq> ''J'' \<longrightarrow> successors (topology es) u \<noteq> [])"

text \<open>Every weight that the solver reads can be converted to a float.\<close>

definition float_safe :: "edge_dict \<Rightarrow> bool" where
  "float_safe es = (\<forall>u \<in> set all_nodes. \<forall>(v, w) \<in> set (neighbors_of es u). fits_float w)"

definition has_edge :: "edge_dict \<Rightarrow> bool" where
  "has_edge es = list_ex (\<lambda>(u, nbs). nbs \<noteq> []) es"

text \<open>The weight stored for an ordered pair of nodes, if the pair is an edge.\<close>

definition edge_weight :: "edge_dict \<Rightarrow> node \<Rightarrow> node \<Rightarrow> int option" where
  "edge_weight es a b = (case map_of es a of None \<Rightarrow> None | Some nbs \<Rightarrow> map_of nbs b)"

text \<open>The stage of a node, read from \<^verbatim>\<open>stages\<close>.\<close>

definition stage_of :: "node \<Rightarrow> nat option" where
  "stage_of u = map_option fst (List.find (\<lambda>(k, ns). u \<in> set ns) stages)"

subsection \<open>The invariant of the outer loop\<close>

text \<open>
  With \<open>seen\<close> the nodes handled so far and \<open>todo\<close> the nodes to come: the nodes to come
  still have their initial entries, the sink keeps cost 0, and the entries of a node
  handled are what the inner loop computes from the costs of its neighbours, which were
  all handled before it. Both tables have the nodes of the two lists as their keys.
\<close>

definition table_inv :: "edge_dict \<Rightarrow> node list \<Rightarrow> node list \<Rightarrow> tables \<Rightarrow> bool" where
  "table_inv es seen todo t =
    (case t of (c, nx) \<Rightarrow>
      (\<forall>u \<in> set todo. u \<noteq> ''J'' \<longrightarrow> c u = Some Infinite \<and> nx u = Some None) \<and>
      c ''J'' = Some (Fin 0) \<and> nx ''J'' = Some None \<and>
      (\<forall>u \<in> set seen. u \<noteq> ''J'' \<longrightarrow>
         c u = Some (fst (scan (cval c) (neighbors_of es u) (Infinite, None))) \<and>
         nx u = Some (snd (scan (cval c) (neighbors_of es u) (Infinite, None)))) \<and>
      (\<forall>u \<in> set seen. (\<forall>(v, w) \<in> set (neighbors_of es u). v \<in> set seen) \<and> c u \<noteq> None) \<and>
      (no_dead_end es \<longrightarrow> (\<forall>u \<in> set seen. cval c u \<noteq> Infinite)) \<and>
      (\<forall>u. u \<notin> set seen \<union> set todo \<longrightarrow> c u = None \<and> nx u = None))"

subsection \<open>Paths\<close>

text \<open>
  A walk along the links of \<^verbatim>\<open>next_node\<close>: every node but the last is followed by
  its link, and the last node has none.
\<close>

fun linked :: "(node \<rightharpoonup> node option) \<Rightarrow> node list \<Rightarrow> bool" where
  "linked nx [] = False"
| "linked nx [u] = (dict_get nx u = None)"
| "linked nx (u # v # rest) = (dict_get nx u = Some v \<and> linked nx (v # rest))"

text \<open>The sum of the weights of a sequence of \<open>(from, to, weight)\<close> triples.\<close>

definition triple_weight :: "node \<times> node \<times> int \<Rightarrow> int" where
  "triple_weight t = snd (snd t)"

definition path_cost :: "(node \<times> node \<times> int) list \<Rightarrow> int" where
  "path_cost p = sum_list (map triple_weight p)"

text \<open>
  A full path to the sink, as the sequence of its edges: it starts at the given node,
  each edge starts where the one before ends, and it ends when it reaches \<^verbatim>\<open>'J'\<close>.
\<close>

fun is_route :: "edge_dict \<Rightarrow> node \<Rightarrow> (node \<times> node \<times> int) list \<Rightarrow> bool" where
  "is_route es u [] = (u = ''J'')"
| "is_route es u ((a, b, w) # rest) =
    (u \<noteq> ''J'' \<and> a = u \<and> (b, w) \<in> set (neighbors_of es u) \<and> is_route es b rest)"

text \<open>
  The exhaustive enumeration that the solver is compared with: every full path from a
  node to the sink that has at most \<open>n\<close> edges.
\<close>

fun all_paths :: "edge_dict \<Rightarrow> nat \<Rightarrow> node \<Rightarrow> (node \<times> node \<times> int) list list" where
  "all_paths es 0 u = (if u = ''J'' then [[]] else [])"
| "all_paths es (Suc n) u =
    (if u = ''J'' then [[]]
     else concat (map (\<lambda>(v, w). map ((#) (u, v, w)) (all_paths es n v)) (neighbors_of es u)))"

subsection \<open>What a caller observes\<close>

text \<open>Whether a call raised, and the pair that the solver returns.\<close>

definition signals_error :: "(error + 'a) option \<Rightarrow> bool" where
  "signals_error r = (case r of Some (Inl e) \<Rightarrow> True | _ \<Rightarrow> False)"

definition outcome ::
  "(error + problem \<times> cost \<times> node list) option \<Rightarrow> (error + cost \<times> node list) option" where
  "outcome r = map_option (map_sum id snd) r"

section \<open>Lemmas\<close>

subsection \<open>Costs\<close>

lemma cost_lt_less: "cost_lt a b = (a < b)"
  by (simp add: less_cost_def)

lemma Infinite_top [simp]: "a \<le> Infinite"
  by (cases a) (auto simp: less_eq_cost_def)

lemma less_Infinite: "(a < Infinite) = (a \<noteq> Infinite)"
  by (cases a) (auto simp: less_cost_def)

lemma Fin_less [simp]: "(Fin a < Fin b) = (a < b)"
  by (simp add: less_cost_def)

lemma Fin_le [simp]: "(Fin a \<le> Fin b) = (a \<le> b)"
  by (auto simp: less_eq_cost_def)

lemma cost_plus_0 [simp]: "cost_plus 0 c = c"
  by (cases c) (auto simp: cost_plus_def)

lemma cost_plus_add: "cost_plus a (cost_plus b c) = cost_plus (a + b) c"
  by (cases c) (auto simp: cost_plus_def)

lemma cost_plus_Fin [simp]: "cost_plus w (Fin k) = Fin (w + k)"
  by (simp add: cost_plus_def)

lemma cost_plus_Infinite [simp]: "cost_plus w Infinite = Infinite"
  by (simp add: cost_plus_def)

lemma cost_plus_eq_Infinite [simp]: "(cost_plus w c = Infinite) = (c = Infinite)"
  by (cases c) auto

lemma cost_plus_mono: "a \<le> b \<Longrightarrow> cost_plus w a \<le> cost_plus w b"
  by (cases a; cases b) (auto simp: less_eq_cost_def)

lemma py_add_ok: "(c = Infinite \<longrightarrow> fits_float w) \<Longrightarrow> py_add w c = Inr (cost_plus w c)"
  by (cases c) (auto simp: py_add_def cost_plus_def)

lemma fits_float_small: "\<bar>w\<bar> < 2 ^ 64 \<Longrightarrow> fits_float w"
proof -
  assume a: "\<bar>w\<bar> < 2 ^ 64"
  have "(2::int) ^ 64 \<le> 2 ^ 970" by (rule power_increasing) simp_all
  moreover have "(2::int) ^ 1024 = 2 ^ 970 * 2 ^ 54" by (simp add: power_add [symmetric])
  moreover have "(2::int) \<le> 2 ^ 54" using power_increasing [of 1 54 "2::int"] by simp
  ultimately have "(2::int) ^ 64 \<le> 2 ^ 1024 - 2 ^ 970"
    using mult_left_mono [of "2::int" "2 ^ 54" "2 ^ 970"] by simp
  with a show ?thesis by (simp add: fits_float_def)
qed

subsection \<open>The inner loop\<close>

lemma scan_cong: "\<forall>(v, w) \<in> set ns. f v = g v \<Longrightarrow> scan f ns b = scan g ns b"
  by (induction f ns b rule: scan.induct) auto

lemma relax_scan:
  assumes "\<forall>(v, w) \<in> set ns. v \<noteq> u \<and> c v = Some (f v) \<and> (f v = Infinite \<longrightarrow> fits_float w)"
    and "c u = Some cu" and "nx u = Some nu"
  shows "relax u ns (c, nx) =
    Inr (c(u \<mapsto> fst (scan f ns (cu, nu))), nx(u \<mapsto> snd (scan f ns (cu, nu))))"
  using assms
proof (induction ns arbitrary: c nx cu nu)
  case Nil
  then show ?case by (simp add: map_upd_triv)
next
  case (Cons a ns)
  obtain v w where a: "a = (v, w)" by (cases a)
  from Cons.prems a have v: "v \<noteq> u" "c v = Some (f v)" "f v = Infinite \<longrightarrow> fits_float w"
    by auto
  have rest: "\<forall>(v, w) \<in> set ns. v \<noteq> u \<and> c v = Some (f v) \<and> (f v = Infinite \<longrightarrow> fits_float w)"
    using Cons.prems by auto
  show ?case
  proof (cases "cost_plus w (f v) < cu")
    case True
    let ?c = "c(u \<mapsto> cost_plus w (f v))" and ?nx = "nx(u \<mapsto> Some v)"
    have step: "relax u (a # ns) (c, nx) = relax u ns (?c, ?nx)"
      using True v Cons.prems(2) a by (simp add: py_add_ok cost_lt_less)
    have ih: "relax u ns (?c, ?nx) =
        Inr (?c(u \<mapsto> fst (scan f ns (cost_plus w (f v), Some v))),
             ?nx(u \<mapsto> snd (scan f ns (cost_plus w (f v), Some v))))"
      by (rule Cons.IH) (use rest in auto)
    have sc: "scan f (a # ns) (cu, nu) = scan f ns (cost_plus w (f v), Some v)"
      using True a by simp
    show ?thesis unfolding step ih sc by (simp only: fun_upd_upd)
  next
    case False
    have step: "relax u (a # ns) (c, nx) = relax u ns (c, nx)"
      using False v Cons.prems(2) a by (simp add: py_add_ok cost_lt_less)
    have sc: "scan f (a # ns) (cu, nu) = scan f ns (cu, nu)"
      using False a by simp
    show ?thesis unfolding step sc
      by (rule Cons.IH) (use rest Cons.prems in auto)
  qed
qed

lemma scan_le_start: "fst (scan f ns (cu, nu)) \<le> cu"
proof (induction ns arbitrary: cu nu)
  case Nil
  then show ?case by simp
next
  case (Cons a ns)
  obtain v w where a: "a = (v, w)" by (cases a)
  show ?case
    using Cons.IH [of "cost_plus w (f v)" "Some v"] Cons.IH [of cu nu]
    by (auto simp: a)
qed

lemma scan_lower: "(v, w) \<in> set ns \<Longrightarrow> fst (scan f ns (cu, nu)) \<le> cost_plus w (f v)"
proof (induction ns arbitrary: cu nu)
  case Nil
  then show ?case by simp
next
  case (Cons a ns)
  obtain v' w' where a: "a = (v', w')" by (cases a)
  show ?case
  proof (cases "(v, w) = a")
    case True
    then show ?thesis
      using scan_le_start [of f ns "cost_plus w (f v)" "Some v"] scan_le_start [of f ns cu nu]
      by (auto simp: a)
  next
    case False
    with Cons.prems have "(v, w) \<in> set ns" by simp
    then show ?thesis using Cons.IH by (auto simp: a)
  qed
qed

lemma scan_attained:
  "fst (scan f ns (cu, nu)) = cu \<or>
    (\<exists>(v, w) \<in> set ns. fst (scan f ns (cu, nu)) = cost_plus w (f v))"
proof (induction ns arbitrary: cu nu)
  case Nil
  then show ?case by simp
next
  case (Cons a ns)
  obtain v w where a: "a = (v, w)" by (cases a)
  show ?case
    using Cons.IH [of "cost_plus w (f v)" "Some v"] Cons.IH [of cu nu]
    by (auto simp: a)
qed

lemma scan_first:
  "snd (scan f ns (cu, nu)) =
    (if fst (scan f ns (cu, nu)) < cu
     then map_option fst
       (List.find (\<lambda>(v, w). cost_plus w (f v) = fst (scan f ns (cu, nu))) ns)
     else nu)"
proof (induction ns arbitrary: cu nu)
  case Nil
  then show ?case by simp
next
  case (Cons a ns)
  obtain v w where a: "a = (v, w)" by (cases a)
  let ?cand = "cost_plus w (f v)"
  show ?case
  proof (cases "?cand < cu")
    case True
    let ?r = "fst (scan f ns (?cand, Some v))"
    have le: "?r \<le> ?cand" by (rule scan_le_start)
    show ?thesis
      using Cons.IH [of ?cand "Some v"] True le by (auto simp: a)
  next
    case False
    let ?r = "fst (scan f ns (cu, nu))"
    show ?thesis
      using Cons.IH [of cu nu] False by (auto simp: a)
  qed
qed

lemma scan_choice_Some:
  assumes "snd (scan f ns (Infinite, None)) = Some v"
  shows "\<exists>w. (v, w) \<in> set ns \<and> cost_plus w (f v) = fst (scan f ns (Infinite, None)) \<and>
    fst (scan f ns (Infinite, None)) \<noteq> Infinite"
proof -
  let ?r = "fst (scan f ns (Infinite, None))"
  let ?P = "\<lambda>(v, w). cost_plus w (f v) = ?r"
  from assms scan_first [of f ns Infinite None]
  have lt: "?r < Infinite" and fd: "map_option fst (List.find ?P ns) = Some v"
    by (auto split: if_splits)
  from fd obtain w where "List.find ?P ns = Some (v, w)" by auto
  then have "(v, w) \<in> set ns" "?P (v, w)"
    by (auto simp: find_Some_iff in_set_conv_nth)
  with lt show ?thesis by (auto simp: less_Infinite)
qed

lemma scan_choice_None:
  assumes "snd (scan f ns (Infinite, None)) = None"
  shows "fst (scan f ns (Infinite, None)) = Infinite"
proof (rule ccontr)
  let ?r = "fst (scan f ns (Infinite, None))"
  let ?P = "\<lambda>(v, w). cost_plus w (f v) = ?r"
  assume ne: "?r \<noteq> Infinite"
  then have lt: "?r < Infinite" by (simp add: less_Infinite)
  with assms scan_first [of f ns Infinite None] have "List.find ?P ns = None" by simp
  then have "\<forall>(v, w) \<in> set ns. cost_plus w (f v) \<noteq> ?r"
    by (auto simp: find_None_iff)
  with scan_attained [of f ns Infinite None] ne show False by auto
qed

lemma scan_finite:
  assumes "ns \<noteq> []" and "\<forall>(v, w) \<in> set ns. f v \<noteq> Infinite"
  shows "fst (scan f ns (Infinite, None)) \<noteq> Infinite"
proof -
  obtain v w where vw: "(v, w) \<in> set ns" using assms(1) by (cases ns) auto
  with assms(2) obtain k where "f v = Fin k" by (cases "f v") auto
  then have "cost_plus w (f v) = Fin (w + k)" by (simp add: cost_plus_def)
  with scan_lower [OF vw, of f Infinite None] show ?thesis
    by (auto simp: less_eq_cost_def)
qed

subsection \<open>Staged topologies\<close>

lemma successors_topology: "successors (topology es) u = map fst (neighbors_of es u)"
  by (induction es) (auto simp: successors_def topology_def neighbors_of_def)

lemma staged_from_fresh: "staged_from tp seen us \<Longrightarrow> x \<in> set seen \<Longrightarrow> x \<notin> set us"
proof (induction us arbitrary: seen)
  case Nil
  then show ?case by simp
next
  case (Cons u us)
  from Cons.prems have "staged_from tp (u # seen) us" and "x \<in> set (u # seen)" and "x \<noteq> u"
    by auto
  with Cons.IH show ?case by auto
qed

lemma staged_from_distinct:
  "staged_from tp seen todo \<Longrightarrow> u \<in> set todo \<Longrightarrow> distinct (successors tp u)"
  by (induction todo arbitrary: seen) auto

lemma staged_distinct:
  "staged es \<Longrightarrow> u \<in> set all_nodes \<Longrightarrow> distinct (map fst (neighbors_of es u))"
  using staged_from_distinct [of "topology es" "[]" "rev all_nodes" u]
  by (simp add: staged_def successors_topology)

lemma staged_from_induct:
  assumes "staged_from tp seen todo" and "\<forall>x \<in> set seen. Q (length seen) x"
    and mono: "\<And>m x. Q m x \<Longrightarrow> Q (Suc m) x"
    and step: "\<And>u m. u \<in> set todo \<Longrightarrow> \<forall>v \<in> set (successors tp u). Q m v \<Longrightarrow> Q (Suc m) u"
  shows "\<forall>x \<in> set todo \<union> set seen. Q (length seen + length todo) x"
  using assms(1,2) step
proof (induction todo arbitrary: seen)
  case Nil
  then show ?case by simp
next
  case (Cons u us)
  from Cons.prems(1) have sub: "set (successors tp u) \<subseteq> set seen"
    and st: "staged_from tp (u # seen) us" by auto
  have "Q (Suc (length seen)) u"
    by (rule Cons.prems(3)) (use sub Cons.prems(2) in auto)
  then have "\<forall>x \<in> set (u # seen). Q (length (u # seen)) x"
    using Cons.prems(2) mono by auto
  from Cons.IH [OF st this] Cons.prems(3) show ?case by auto
qed

lemma staged_induct:
  assumes "staged es"
    and mono: "\<And>m x. Q m x \<Longrightarrow> Q (Suc m) x"
    and step: "\<And>u m. u \<in> set all_nodes \<Longrightarrow>
       \<forall>(v, w) \<in> set (neighbors_of es u). Q m v \<Longrightarrow> Q (Suc m) u"
  shows "\<forall>x \<in> set all_nodes. Q (length all_nodes) x"
proof -
  have "\<forall>x \<in> set (rev all_nodes) \<union> set []. Q (length ([]::node list) + length (rev all_nodes)) x"
  proof (rule staged_from_induct [where tp = "topology es"])
    show "staged_from (topology es) [] (rev all_nodes)" using assms(1) by (simp add: staged_def)
    show "\<forall>x \<in> set []. Q (length ([]::node list)) x" by simp
    show "\<And>m x. Q m x \<Longrightarrow> Q (Suc m) x" by (rule mono)
    show "Q (Suc m) u" if "u \<in> set (rev all_nodes)" "\<forall>v \<in> set (successors (topology es) u). Q m v" for u m
      by (rule step) (use that in \<open>auto simp: successors_topology\<close>)
  qed
  then show ?thesis by simp
qed

lemma default_topology_staged:
  assumes "has_default_topology es"
  shows "staged es" and "no_dead_end es"
  using assms
  by (simp_all add: has_default_topology_def staged_def no_dead_end_def topology_def
      init_default_edges_def all_nodes_def successors_def)

lemma default_stage_step:
  assumes "has_default_topology es" and "(v, w) \<in> set (neighbors_of es u)"
  shows "\<exists>k. stage_of u = Some k \<and> stage_of v = Some (Suc k)"
proof -
  from assms(2) have "v \<in> set (successors (topology es) u)"
    by (force simp: successors_topology)
  then have "v \<in> set (successors (topology init_default_edges) u)"
    using assms(1) by (simp add: has_default_topology_def)
  then show ?thesis
    by (auto simp: successors_def topology_def init_default_edges_def stage_of_def stages_def
        split: if_splits)
qed

lemma edge_weight_neighbor:
  assumes "distinct (map fst (neighbors_of es u))" and "(v, w) \<in> set (neighbors_of es u)"
  shows "map_of es u = Some (neighbors_of es u)" and "map_of (neighbors_of es u) v = Some w"
    and "edge_weight es u v = Some w"
proof -
  show 1: "map_of es u = Some (neighbors_of es u)"
    using assms(2) by (cases "map_of es u") (auto simp: neighbors_of_def)
  show 2: "map_of (neighbors_of es u) v = Some w"
    using assms by (simp add: map_of_is_SomeI)
  show "edge_weight es u v = Some w"
    using 1 2 by (simp add: edge_weight_def)
qed

subsection \<open>The outer loop\<close>

lemma backward_inv:
  assumes "staged_from (topology es) seen todo" and "set todo \<subseteq> set all_nodes"
    and "float_safe es \<or> no_dead_end es" and "table_inv es seen todo (c, nx)"
  shows "\<exists>c' nx'. backward es todo (c, nx) = Inr (c', nx') \<and>
           table_inv es (rev todo @ seen) [] (c', nx')"
  using assms
proof (induction todo arbitrary: seen c nx)
  case Nil
  then show ?case by simp
next
  case (Cons u us)
  let ?nbs = "neighbors_of es u"
  from Cons.prems(1) have fresh: "u \<notin> set seen"
    and sub: "\<forall>(v, w) \<in> set ?nbs. v \<in> set seen"
    and st: "staged_from (topology es) (u # seen) us"
    by (auto simp: successors_topology)
  have us: "set us \<subseteq> set all_nodes" and uin: "u \<in> set all_nodes"
    using Cons.prems(2) by auto
  note inv = Cons.prems(4) [unfolded table_inv_def, simplified]
  show ?case
  proof (cases "u = ''J''")
    case True
    have "table_inv es (u # seen) us (c, nx)"
      using inv sub True unfolding table_inv_def by (auto simp: cval_def)
    from Cons.IH [OF st us Cons.prems(3) this] show ?thesis using True by simp
  next
    case False
    let ?r = "scan (cval c) ?nbs (Infinite, None)"
    let ?c = "c(u \<mapsto> fst ?r)" and ?nx = "nx(u \<mapsto> snd ?r)"
    have cu: "c u = Some Infinite" "nx u = Some None" using inv False by auto
    have nb: "\<forall>(v, w) \<in> set ?nbs. v \<noteq> u \<and> c v = Some (cval c v) \<and> (cval c v = Infinite \<longrightarrow> fits_float w)"
    proof (clarify, intro conjI)
      fix v w assume vw: "(v, w) \<in> set ?nbs"
      then have vs: "v \<in> set seen" using sub by auto
      then show "v \<noteq> u" using fresh by auto
      from vs inv show "c v = Some (cval c v)" by (auto simp: cval_def)
      show "cval c v = Infinite \<longrightarrow> fits_float w"
        using inv vs vw uin Cons.prems(3) unfolding float_safe_def by auto
    qed
    have rel: "relax u ?nbs (c, nx) = Inr (?c, ?nx)"
      using nb cu by (rule relax_scan [where f = "cval c"])
    have same: "scan (cval ?c) (neighbors_of es x) b = scan (cval c) (neighbors_of es x) b"
      if "\<forall>(v, w) \<in> set (neighbors_of es x). v \<in> set seen" for x b
    proof (rule scan_cong, clarify)
      fix v w assume "(v, w) \<in> set (neighbors_of es x)"
      then have "v \<in> set seen" using that by auto
      then have "v \<noteq> u" using fresh by auto
      then show "cval ?c v = cval c v" by (simp add: cval_def)
    qed
    have notin: "u \<notin> set us" using staged_from_fresh [OF st, of u] by simp
    have fin: "fst ?r \<noteq> Infinite" if "no_dead_end es"
    proof (rule scan_finite)
      from that show "?nbs \<noteq> []"
        using uin False unfolding no_dead_end_def by (auto simp: successors_topology)
      show "\<forall>(v, w) \<in> set ?nbs. cval c v \<noteq> Infinite"
        using that inv sub by auto
    qed
    have a1: "\<forall>x \<in> set us. x \<noteq> ''J'' \<longrightarrow> ?c x = Some Infinite \<and> ?nx x = Some None"
      using notin inv by auto
    have a2: "?c ''J'' = Some (Fin 0)" "?nx ''J'' = Some None" using inv False by auto
    have a4: "\<forall>x \<in> set (u # seen).
        (\<forall>(v, w) \<in> set (neighbors_of es x). v \<in> set (u # seen)) \<and> ?c x \<noteq> None"
      using sub inv by auto
    have a3: "\<forall>x \<in> set (u # seen). x \<noteq> ''J'' \<longrightarrow>
         ?c x = Some (fst (scan (cval ?c) (neighbors_of es x) (Infinite, None))) \<and>
         ?nx x = Some (snd (scan (cval ?c) (neighbors_of es x) (Infinite, None)))"
    proof (intro ballI impI)
      fix x assume x: "x \<in> set (u # seen)" "x \<noteq> ''J''"
      have nbx: "\<forall>(v, w) \<in> set (neighbors_of es x). v \<in> set seen"
        using x sub inv by auto
      show "?c x = Some (fst (scan (cval ?c) (neighbors_of es x) (Infinite, None))) \<and>
        ?nx x = Some (snd (scan (cval ?c) (neighbors_of es x) (Infinite, None)))"
        using x inv by (auto simp: same [OF nbx])
    qed
    have a5: "no_dead_end es \<longrightarrow> (\<forall>x \<in> set (u # seen). cval ?c x \<noteq> Infinite)"
      using fin inv fresh by (auto simp: cval_def)
    have a6: "\<forall>x. x \<notin> set (u # seen) \<union> set us \<longrightarrow> ?c x = None \<and> ?nx x = None"
      using inv by auto
    have "table_inv es (u # seen) us (?c, ?nx)"
      unfolding table_inv_def using a1 a2 a3 a4 a5 a6 by (simp only: prod.case)
    from Cons.IH [OF st us Cons.prems(3) this] obtain c' nx'
      where r: "backward es us (?c, ?nx) = Inr (c', nx')"
        "table_inv es (rev us @ u # seen) [] (c', nx')"
      by blast
    have step: "backward es (u # us) (c, nx) = backward es us (?c, ?nx)"
      using False by (simp only: backward.simps rel if_False sum.case)
    have "backward es (u # us) (c, nx) = Inr (c', nx')"
      unfolding step by (rule r(1))
    with r(2) show ?thesis by simp
  qed
qed

lemma initial_inv: "table_inv es [] (rev all_nodes) initial_tables"
  by (simp add: table_inv_def initial_tables_def all_nodes_def)

lemma solve_tables_inv:
  assumes "staged es" and "float_safe es \<or> no_dead_end es"
  shows "\<exists>c nx. solve_tables es = Inr (c, nx) \<and> table_inv es all_nodes [] (c, nx)"
proof -
  obtain c0 nx0 where t0: "initial_tables = (c0, nx0)" by (cases initial_tables)
  have "\<exists>c nx. backward es (rev all_nodes) (c0, nx0) = Inr (c, nx) \<and>
      table_inv es (rev (rev all_nodes) @ []) [] (c, nx)"
    by (rule backward_inv) (use assms initial_inv [of es] t0 in \<open>auto simp: staged_def\<close>)
  then show ?thesis by (simp add: solve_tables_def t0)
qed

lemma table_final:
  assumes "table_inv es all_nodes [] (c, nx)"
  shows "c ''J'' = Some (Fin 0)" and "nx ''J'' = Some None"
    and "\<And>u. u \<in> set all_nodes \<Longrightarrow> u \<noteq> ''J'' \<Longrightarrow>
      c u = Some (fst (scan (cval c) (neighbors_of es u) (Infinite, None)))"
    and "\<And>u. u \<in> set all_nodes \<Longrightarrow> u \<noteq> ''J'' \<Longrightarrow>
      nx u = Some (snd (scan (cval c) (neighbors_of es u) (Infinite, None)))"
    and "\<And>u v w. u \<in> set all_nodes \<Longrightarrow> (v, w) \<in> set (neighbors_of es u) \<Longrightarrow>
      v \<in> set all_nodes"
    and "\<And>u. no_dead_end es \<Longrightarrow> u \<in> set all_nodes \<Longrightarrow> cval c u \<noteq> Infinite"
    and "\<And>u. u \<notin> set all_nodes \<Longrightarrow> c u = None \<and> nx u = None"
  using assms unfolding table_inv_def by auto

lemma cval_final:
  assumes "table_inv es all_nodes [] (c, nx)" and "u \<in> set all_nodes"
  shows "c u = Some (cval c u)"
  using table_final(1,3) [OF assms(1)] assms(2) by (cases "u = ''J''") (auto simp: cval_def)

lemma link_None:
  assumes "table_inv es all_nodes [] (c, nx)" and "dict_get nx u = None"
  shows "u = ''J'' \<or> cval c u = Infinite"
proof (cases "u \<in> set all_nodes \<and> u \<noteq> ''J''")
  case True
  then have "nx u = Some (snd (scan (cval c) (neighbors_of es u) (Infinite, None)))"
    and cu: "c u = Some (fst (scan (cval c) (neighbors_of es u) (Infinite, None)))"
    using table_final(3,4) [OF assms(1)] by auto
  with assms(2) have "snd (scan (cval c) (neighbors_of es u) (Infinite, None)) = None"
    by (simp add: dict_get_def)
  from scan_choice_None [OF this] cu show ?thesis by (simp add: cval_def)
next
  case False
  then show ?thesis using table_final(7) [OF assms(1), of u] by (auto simp: cval_def)
qed

lemma link_Some:
  assumes "table_inv es all_nodes [] (c, nx)" and "dict_get nx u = Some v"
  shows "u \<in> set all_nodes \<and> u \<noteq> ''J'' \<and> v \<in> set all_nodes \<and>
    (\<exists>w. (v, w) \<in> set (neighbors_of es u) \<and> cost_plus w (cval c v) = cval c u \<and>
      cval c u \<noteq> Infinite)"
proof -
  have "nx u \<noteq> None" "nx u \<noteq> Some None"
    using assms(2) by (auto simp: dict_get_def split: option.splits)
  then have "u \<in> set all_nodes \<and> u \<noteq> ''J''"
    using table_final(2) [OF assms(1)] table_final(7) [OF assms(1), of u]
    by (cases "u \<in> set all_nodes") auto
  then have u: "u \<in> set all_nodes" "u \<noteq> ''J''" by simp_all
  then have "nx u = Some (snd (scan (cval c) (neighbors_of es u) (Infinite, None)))"
    and cu: "c u = Some (fst (scan (cval c) (neighbors_of es u) (Infinite, None)))"
    using table_final(3,4) [OF assms(1)] by auto
  with assms(2) have "snd (scan (cval c) (neighbors_of es u) (Infinite, None)) = Some v"
    by (simp add: dict_get_def)
  from scan_choice_Some [OF this] obtain w where w: "(v, w) \<in> set (neighbors_of es u)"
    "cost_plus w (cval c v) = fst (scan (cval c) (neighbors_of es u) (Infinite, None))"
    "fst (scan (cval c) (neighbors_of es u) (Infinite, None)) \<noteq> Infinite" by blast
  have "v \<in> set all_nodes" using table_final(5) [OF assms(1) u(1) w(1)] .
  with u w cu show ?thesis by (auto simp: cval_def)
qed

lemma bellman:
  assumes "table_inv es all_nodes [] (c, nx)" and "u \<in> set all_nodes" and "u \<noteq> ''J''"
  shows "\<forall>(v, w) \<in> set (neighbors_of es u). cval c u \<le> cost_plus w (cval c v)"
    and "cval c u = Infinite \<or> (\<exists>(v, w) \<in> set (neighbors_of es u). cval c u = cost_plus w (cval c v))"
proof -
  have cu: "cval c u = fst (scan (cval c) (neighbors_of es u) (Infinite, None))"
    using table_final(3) [OF assms] by (simp add: cval_def)
  show "\<forall>(v, w) \<in> set (neighbors_of es u). cval c u \<le> cost_plus w (cval c v)"
    unfolding cu using scan_lower by auto
  show "cval c u = Infinite \<or> (\<exists>(v, w) \<in> set (neighbors_of es u). cval c u = cost_plus w (cval c v))"
    unfolding cu by (rule scan_attained)
qed

lemma first_minimum:
  assumes "table_inv es all_nodes [] (c, nx)" and "u \<in> set all_nodes" and "u \<noteq> ''J''"
  shows "nx u = Some (if cval c u = Infinite then None
     else map_option fst
       (List.find (\<lambda>(v, w). cost_plus w (cval c v) = cval c u) (neighbors_of es u)))"
proof -
  have cu: "cval c u = fst (scan (cval c) (neighbors_of es u) (Infinite, None))"
    using table_final(3) [OF assms] by (simp add: cval_def)
  show ?thesis
    unfolding cu table_final(4) [OF assms]
    by (subst scan_first) (simp add: less_Infinite)
qed

subsection \<open>Following the links\<close>

lemma follow_None: "follow nx None path = Some path"
  by (simp add: follow.simps)

lemma follow_Some: "follow nx (Some u) path = follow nx (dict_get nx u) (path @ [u])"
  by (subst follow.simps) simp

lemma follow_terminates:
  assumes "staged es" and "table_inv es all_nodes [] (c, nx)"
  shows "\<forall>u \<in> set all_nodes. \<forall>acc. \<exists>p. follow nx (Some u) acc = Some (acc @ u # p) \<and>
    linked nx (u # p)"
proof -
  let ?Q = "\<lambda>m u. \<forall>acc. \<exists>p. follow nx (Some u) acc = Some (acc @ u # p) \<and> linked nx (u # p)"
  have "\<forall>u \<in> set all_nodes. ?Q (length all_nodes) u"
  proof (rule staged_induct [OF assms(1)])
    fix u and m :: nat
    assume u: "u \<in> set all_nodes" and ih: "\<forall>(v, w) \<in> set (neighbors_of es u). ?Q m v"
    show "?Q (Suc m) u"
    proof
      fix acc
      show "\<exists>p. follow nx (Some u) acc = Some (acc @ u # p) \<and> linked nx (u # p)"
      proof (cases "dict_get nx u")
        case None
        then have "follow nx (Some u) acc = Some (acc @ u # [])" "linked nx (u # [])"
          by (simp_all add: follow_Some follow_None)
        then show ?thesis by blast
      next
        case (Some v)
        from link_Some [OF assms(2) Some] obtain w where "(v, w) \<in> set (neighbors_of es u)"
          by blast
        with ih have "?Q m v" by auto
        then obtain p where p: "follow nx (Some v) (acc @ [u]) = Some ((acc @ [u]) @ v # p)"
          "linked nx (v # p)" by blast
        have "follow nx (Some u) acc = Some (acc @ u # v # p)" "linked nx (u # v # p)"
          using p Some by (simp_all add: follow_Some [of nx u])
        then show ?thesis by blast
      qed
    qed
  qed simp
  then show ?thesis by simp
qed

lemma linked_nodes:
  assumes "table_inv es all_nodes [] (c, nx)"
  shows "linked nx (u # p) \<Longrightarrow> u \<in> set all_nodes \<Longrightarrow> set (u # p) \<subseteq> set all_nodes"
proof (induction p arbitrary: u)
  case Nil
  then show ?case by simp
next
  case (Cons v q)
  then have "dict_get nx u = Some v" "linked nx (v # q)" by simp_all
  with link_Some [OF assms, of u v] Cons.IH [of v] Cons.prems(2) show ?case by simp
qed

lemma details_linked:
  assumes "staged es" and "table_inv es all_nodes [] (c, nx)"
  shows "linked nx (u # p) \<Longrightarrow>
    \<exists>ds. details es (u # p) = Inr ds \<and>
      map (\<lambda>(a, b, w). (a, b)) ds = zip (u # p) p \<and>
      (\<forall>(a, b, w) \<in> set ds. edge_weight es a b = Some w) \<and>
      cval c u = cost_plus (path_cost ds) (cval c (last (u # p))) \<and>
      (last (u # p) = ''J'' \<or> cval c (last (u # p)) = Infinite)"
proof (induction p arbitrary: u)
  case Nil
  then have "dict_get nx u = None" by simp
  from link_None [OF assms(2) this] show ?case by (simp add: path_cost_def)
next
  case (Cons v q)
  then have lk: "dict_get nx u = Some v" and rest: "linked nx (v # q)" by simp_all
  from link_Some [OF assms(2) lk] obtain w where u: "u \<in> set all_nodes"
    and vw: "(v, w) \<in> set (neighbors_of es u)" and cu: "cost_plus w (cval c v) = cval c u"
    by blast
  note ew = edge_weight_neighbor [OF staged_distinct [OF assms(1) u] vw]
  from Cons.IH [OF rest] obtain ds where ds: "details es (v # q) = Inr ds"
    "map (\<lambda>(a, b, w). (a, b)) ds = zip (v # q) q"
    "\<forall>(a, b, w) \<in> set ds. edge_weight es a b = Some w"
    "cval c v = cost_plus (path_cost ds) (cval c (last (v # q)))"
    "last (v # q) = ''J'' \<or> cval c (last (v # q)) = Infinite"
    by blast
  have 1: "details es (u # v # q) = Inr ((u, v, w) # ds)"
    using ew(1,2) ds(1) by simp
  have 2: "cval c u = cost_plus (path_cost ((u, v, w) # ds)) (cval c (last (u # v # q)))"
    using cu ds(4) by (simp add: cost_plus_add path_cost_def triple_weight_def)
  show ?case using 1 2 ds(2,3,5) ew(3) by simp
qed

lemma solve_returns:
  assumes "staged (edges s)" and "float_safe (edges s) \<or> no_dead_end (edges s)"
  shows "\<exists>c nx p. table_inv (edges s) all_nodes [] (c, nx) \<and>
    linked nx (''A'' # p) \<and>
    reconstruct_path (s\<lparr>cost_to_go := c, next_node := nx\<rparr>) = Some (''A'' # p) \<and>
    solve_backward_induction s =
      Some (Inr (s\<lparr>cost_to_go := c, next_node := nx\<rparr>, cval c ''A'', ''A'' # p))"
proof -
  from solve_tables_inv [OF assms] obtain c nx
    where t: "solve_tables (edges s) = Inr (c, nx)" "table_inv (edges s) all_nodes [] (c, nx)"
    by blast
  have A: "''A'' \<in> set all_nodes" by (simp add: all_nodes_def)
  from follow_terminates [OF assms(1) t(2)] A obtain p
    where p: "follow nx (Some ''A'') [] = Some ([] @ ''A'' # p)" "linked nx (''A'' # p)"
    by blast
  have r: "reconstruct_path (s\<lparr>cost_to_go := c, next_node := nx\<rparr>) = Some (''A'' # p)"
    using p(1) by (simp add: reconstruct_path_def)
  have "solve_backward_induction s =
      Some (Inr (s\<lparr>cost_to_go := c, next_node := nx\<rparr>, cval c ''A'', ''A'' # p))"
    using t(1) r cval_final [OF t(2) A] by (simp add: solve_backward_induction_def)
  with t(2) p(2) r show ?thesis by blast
qed

lemma default_solution:
  assumes "has_default_topology (edges s)"
  shows "\<exists>c nx p ds k. table_inv (edges s) all_nodes [] (c, nx) \<and>
    linked nx (''A'' # p) \<and> last (''A'' # p) = ''J'' \<and>
    reconstruct_path (s\<lparr>cost_to_go := c, next_node := nx\<rparr>) = Some (''A'' # p) \<and>
    solve_backward_induction s =
      Some (Inr (s\<lparr>cost_to_go := c, next_node := nx\<rparr>, Fin k, ''A'' # p)) \<and>
    cval c ''A'' = Fin k \<and>
    get_path_details (s\<lparr>cost_to_go := c, next_node := nx\<rparr>) = Some (Inr ds) \<and>
    map (\<lambda>(a, b, w). (a, b)) ds = zip (''A'' # p) p \<and>
    (\<forall>(a, b, w) \<in> set ds. edge_weight (edges s) a b = Some w) \<and>
    path_cost ds = k"
proof -
  note d = default_topology_staged [OF assms]
  from solve_returns [OF d(1)] d(2) obtain c nx p
    where t: "table_inv (edges s) all_nodes [] (c, nx)"
      and l: "linked nx (''A'' # p)"
      and rp: "reconstruct_path (s\<lparr>cost_to_go := c, next_node := nx\<rparr>) = Some (''A'' # p)"
      and r: "solve_backward_induction s =
        Some (Inr (s\<lparr>cost_to_go := c, next_node := nx\<rparr>, cval c ''A'', ''A'' # p))"
    by blast
  have A: "''A'' \<in> set all_nodes" by (simp add: all_nodes_def)
  from details_linked [OF d(1) t l] obtain ds
    where ds: "details (edges s) (''A'' # p) = Inr ds"
      "map (\<lambda>(a, b, w). (a, b)) ds = zip (''A'' # p) p"
      "\<forall>(a, b, w) \<in> set ds. edge_weight (edges s) a b = Some w"
      "cval c ''A'' = cost_plus (path_cost ds) (cval c (last (''A'' # p)))"
      "last (''A'' # p) = ''J'' \<or> cval c (last (''A'' # p)) = Infinite"
    by blast
  have "last (''A'' # p) \<in> set (''A'' # p)" by (rule last_in_set) simp
  with linked_nodes [OF t l A] have "last (''A'' # p) \<in> set all_nodes" by blast
  from table_final(6) [OF t d(2) this] ds(5) have J: "last (''A'' # p) = ''J''" by simp
  have cA: "cval c ''A'' = Fin (path_cost ds)"
    using ds(4) table_final(1) [OF t] unfolding J by (simp add: cval_def)
  have gp: "get_path_details (s\<lparr>cost_to_go := c, next_node := nx\<rparr>) = Some (Inr ds)"
    using rp ds(1) by (simp add: get_path_details_def)
  from t l J rp r cA gp ds(2,3) show ?thesis by auto
qed

subsection \<open>Exhaustive enumeration\<close>

lemma all_paths_step:
  "u \<noteq> ''J'' \<Longrightarrow> (p \<in> set (all_paths es (Suc k) u)) =
    (\<exists>v w q. (v, w) \<in> set (neighbors_of es u) \<and> q \<in> set (all_paths es k v) \<and> p = (u, v, w) # q)"
  by auto

lemma all_paths_numeral:
  "all_paths es (numeral k) u = all_paths es (Suc (pred_numeral k)) u"
  by (simp add: numeral_eq_Suc)

lemma all_paths_iff:
  "(p \<in> set (all_paths es n u)) = (is_route es u p \<and> length p \<le> n)"
proof (induction n arbitrary: u p)
  case 0
  then show ?case by (cases p) auto
next
  case (Suc n)
  show ?case
  proof (cases "u = ''J''")
    case True
    then show ?thesis by (cases p) auto
  next
    case False
    show ?thesis
    proof (cases p)
      case Nil
      with False show ?thesis unfolding all_paths_step [OF False] by simp
    next
      case (Cons t q)
      obtain a b w where t: "t = (a, b, w)" by (cases t)
      show ?thesis
        unfolding all_paths_step [OF False] Cons t using Suc.IH [of q b] False by auto
    qed
  qed
qed

lemma route_length:
  assumes "staged es"
  shows "\<forall>u \<in> set all_nodes. \<forall>p. is_route es u p \<longrightarrow> length p \<le> length all_nodes"
    (is "\<forall>u \<in> set all_nodes. ?Q (length all_nodes) u")
proof (rule staged_induct [OF assms])
  fix m :: nat and x
  assume "?Q m x"
  then show "?Q (Suc m) x" by (simp add: le_SucI)
next
  fix u and m :: nat
  assume ih: "\<forall>(v, w) \<in> set (neighbors_of es u). ?Q m v"
  show "?Q (Suc m) u"
  proof (intro allI impI)
    fix p assume r: "is_route es u p"
    show "length p \<le> Suc m"
    proof (cases p)
      case Nil
      then show ?thesis by simp
    next
      case (Cons t q)
      obtain a b w where t: "t = (a, b, w)" by (cases t)
      from r Cons t have "(b, w) \<in> set (neighbors_of es u)" "is_route es b q" by simp_all
      with ih have "length q \<le> m" by blast
      with Cons show ?thesis by simp
    qed
  qed
qed

lemma all_paths_complete:
  assumes "staged es" and "u \<in> set all_nodes"
  shows "set (all_paths es (length all_nodes) u) = {p. is_route es u p}"
  using route_length [OF assms(1)] assms(2) by (auto simp: all_paths_iff)

lemma paths_cost:
  assumes "staged es" and "table_inv es all_nodes [] (c, nx)"
  shows "\<forall>u \<in> set all_nodes. \<forall>n \<ge> length all_nodes.
    (\<forall>p \<in> set (all_paths es n u). cval c u \<le> Fin (path_cost p)) \<and>
    (cval c u = Infinite \<or> (\<exists>p \<in> set (all_paths es n u). cval c u = Fin (path_cost p)))"
    (is "\<forall>u \<in> set all_nodes. ?Q (length all_nodes) u")
proof (rule staged_induct [OF assms(1)])
  fix m :: nat and x
  assume "?Q m x"
  show "?Q (Suc m) x"
  proof (intro allI impI)
    fix n assume "Suc m \<le> n"
    then have "m \<le> n" by simp
    with \<open>?Q m x\<close> show "(\<forall>p \<in> set (all_paths es n x). cval c x \<le> Fin (path_cost p)) \<and>
      (cval c x = Infinite \<or> (\<exists>p \<in> set (all_paths es n x). cval c x = Fin (path_cost p)))"
      by simp
  qed
next
  fix u and m :: nat
  assume u: "u \<in> set all_nodes"
    and ih: "\<forall>(v, w) \<in> set (neighbors_of es u). ?Q m v"
  show "?Q (Suc m) u"
  proof (intro allI impI)
    fix n assume "Suc m \<le> n"
    then obtain k where n: "n = Suc k" and k: "m \<le> k" by (cases n) auto
    show "(\<forall>p \<in> set (all_paths es n u). cval c u \<le> Fin (path_cost p)) \<and>
      (cval c u = Infinite \<or> (\<exists>p \<in> set (all_paths es n u). cval c u = Fin (path_cost p)))"
    proof (cases "u = ''J''")
      case True
      then show ?thesis using table_final(1) [OF assms(2)] n
        by (simp add: cval_def path_cost_def)
    next
      case False
      note b = bellman [OF assms(2) u False]
      have lower: "cval c u \<le> Fin (path_cost p)" if "p \<in> set (all_paths es n u)" for p
      proof -
        from that n False obtain v w q where vw: "(v, w) \<in> set (neighbors_of es u)"
          and q: "q \<in> set (all_paths es k v)" and p: "p = (u, v, w) # q"
          by (auto simp: all_paths_step)
        from ih vw k q have "cval c v \<le> Fin (path_cost q)" by blast
        from cost_plus_mono [OF this, of w]
        have "cost_plus w (cval c v) \<le> Fin (w + path_cost q)" by simp
        moreover from b(1) vw have "cval c u \<le> cost_plus w (cval c v)" by auto
        ultimately have "cval c u \<le> Fin (w + path_cost q)" by (rule order_trans [rotated])
        then show ?thesis by (simp add: p path_cost_def triple_weight_def)
      qed
      have upper: "\<exists>p \<in> set (all_paths es n u). cval c u = Fin (path_cost p)"
        if "cval c u \<noteq> Infinite"
      proof -
        from b(2) that obtain v w where vw: "(v, w) \<in> set (neighbors_of es u)"
          and cu: "cval c u = cost_plus w (cval c v)" by auto
        with that have "cval c v \<noteq> Infinite" by auto
        with ih vw k obtain q where q: "q \<in> set (all_paths es k v)"
          and cv: "cval c v = Fin (path_cost q)" by blast
        have "(u, v, w) # q \<in> set (all_paths es n u)"
          using n False vw q by (auto simp: all_paths_step)
        moreover have "cval c u = Fin (path_cost ((u, v, w) # q))"
          using cu cv by (simp add: path_cost_def triple_weight_def)
        ultimately show ?thesis by blast
      qed
      from lower upper show ?thesis by blast
    qed
  qed
qed

subsection \<open>Editing the weights\<close>

lemma deep_copy_edges_id [simp]: "deep_copy_edges es = es"
  by (induction es) (auto simp: deep_copy_edges_def)

lemma topology_update:
  "map_of es a = Some nbs \<Longrightarrow> map fst nbs' = map fst nbs \<Longrightarrow>
    topology (AList.update a nbs' es) = topology es"
  by (induction es) (auto simp: topology_def)

lemma keys_update: "map_of nbs b \<noteq> None \<Longrightarrow> map fst (AList.update b w nbs) = map fst nbs"
  by (induction nbs) auto

lemma randint_range:
  assumes "a \<le> b"
  shows "\<exists>x. randint a b r = Inr x \<and> a \<le> x \<and> x \<le> b"
proof -
  have "0 < b - a + 1" using assms by simp
  then have "0 \<le> int r mod (b - a + 1)" "int r mod (b - a + 1) < b - a + 1"
    by (rule pos_mod_sign, rule pos_mod_bound)
  then show ?thesis using assms by (simp add: randint_def)
qed

lemma randint_empty: "b < a \<Longrightarrow> randint a b r = Inl ValueError"
  by (simp add: randint_def)

lemma randomise_neighbors_ok:
  assumes "min_val \<le> max_val"
  shows "\<exists>nbs'. randomise_neighbors rnd min_val max_val k nbs = (nbs', k + length nbs, None) \<and>
    map fst nbs' = map fst nbs \<and> (\<forall>(v, w) \<in> set nbs'. min_val \<le> w \<and> w \<le> max_val)"
proof (induction nbs arbitrary: k)
  case Nil
  then show ?case by simp
next
  case (Cons a nbs)
  obtain v w where a: "a = (v, w)" by (cases a)
  from randint_range [OF assms, of "rnd k"] obtain x
    where x: "randint min_val max_val (rnd k) = Inr x" "min_val \<le> x" "x \<le> max_val" by blast
  from Cons.IH [of "Suc k"] obtain r
    where r: "randomise_neighbors rnd min_val max_val (Suc k) nbs = (r, Suc k + length nbs, None)"
      "map fst r = map fst nbs" "\<forall>(v, w) \<in> set r. min_val \<le> w \<and> w \<le> max_val"
    by blast
  show ?case using x r a by simp
qed

lemma randomise_edges_ok:
  assumes "min_val \<le> max_val"
  shows "\<exists>es' k'. randomise_edges rnd min_val max_val k es = (es', k', None) \<and>
    topology es' = topology es \<and>
    (\<forall>(u, nbs) \<in> set es'. \<forall>(v, w) \<in> set nbs. min_val \<le> w \<and> w \<le> max_val)"
proof (induction es arbitrary: k)
  case Nil
  then show ?case by (simp add: topology_def)
next
  case (Cons a es)
  obtain u nbs where a: "a = (u, nbs)" by (cases a)
  from randomise_neighbors_ok [OF assms, of rnd k nbs] obtain nbs'
    where n: "randomise_neighbors rnd min_val max_val k nbs = (nbs', k + length nbs, None)"
      "map fst nbs' = map fst nbs" "\<forall>(v, w) \<in> set nbs'. min_val \<le> w \<and> w \<le> max_val"
    by blast
  from Cons.IH [of "k + length nbs"] obtain es' k'
    where e: "randomise_edges rnd min_val max_val (k + length nbs) es = (es', k', None)"
      "topology es' = topology es"
      "\<forall>(u, nbs) \<in> set es'. \<forall>(v, w) \<in> set nbs. min_val \<le> w \<and> w \<le> max_val"
    by blast
  show ?case using n e a by (simp add: topology_def)
qed

lemma randomise_neighbors_empty_range:
  "max_val < min_val \<Longrightarrow> nbs \<noteq> [] \<Longrightarrow>
    randomise_neighbors rnd min_val max_val k nbs = (nbs, k, Some ValueError)"
  by (cases nbs) (auto simp: randint_empty)

lemma randomise_edges_empty_range:
  "max_val < min_val \<Longrightarrow> has_edge es \<Longrightarrow>
    randomise_edges rnd min_val max_val k es = (es, k, Some ValueError)"
proof (induction es)
  case Nil
  then show ?case by (simp add: has_edge_def)
next
  case (Cons a es)
  obtain u nbs where a: "a = (u, nbs)" by (cases a)
  show ?case
  proof (cases "nbs = []")
    case True
    with Cons a show ?thesis by (simp add: has_edge_def)
  next
    case False
    with Cons.prems a show ?thesis by (simp add: randomise_neighbors_empty_range)
  qed
qed

lemma default_topology_has_edge: "has_default_topology es \<Longrightarrow> has_edge es"
  by (cases es) (auto simp: has_default_topology_def has_edge_def topology_def init_default_edges_def)

subsection \<open>The topology never changes\<close>

text \<open>
  No method adds or removes a key of \<^verbatim>\<open>edges\<close>, so every object that the methods can
  produce from a freshly constructed one has the topology of the constructor.
\<close>

lemma init_default_topology: "has_default_topology (edges init_problem)"
  by (simp add: has_default_topology_def init_problem_def)

lemma reset_to_default_topology:
  "default_edges s = init_default_edges \<Longrightarrow> has_default_topology (edges (reset_to_default s))"
  by (simp add: has_default_topology_def reset_to_default_def)

lemma set_edge_weight_topology:
  "topology (edges (set_edge_weight from_node to_node weight s)) = topology (edges s)"
  by (auto simp: set_edge_weight_def topology_update keys_update split: option.splits)

lemma randomise_neighbors_keys:
  "map fst (fst (randomise_neighbors rnd min_val max_val k nbs)) = map fst nbs"
proof (induction nbs arbitrary: k)
  case Nil
  then show ?case by simp
next
  case (Cons a nbs)
  obtain v w where a: "a = (v, w)" by (cases a)
  obtain r k' err where r: "randomise_neighbors rnd min_val max_val (Suc k) nbs = (r, k', err)"
    by (cases "randomise_neighbors rnd min_val max_val (Suc k) nbs")
  from Cons.IH [of "Suc k"] r have "map fst r = map fst nbs" by simp
  with a r show ?case by (simp split: sum.splits)
qed

lemma randomise_edges_topology:
  "topology (fst (randomise_edges rnd min_val max_val k es)) = topology es"
proof (induction es arbitrary: k)
  case Nil
  then show ?case by simp
next
  case (Cons a es)
  obtain u nbs where a: "a = (u, nbs)" by (cases a)
  obtain nbs' k' err where n: "randomise_neighbors rnd min_val max_val k nbs = (nbs', k', err)"
    by (cases "randomise_neighbors rnd min_val max_val k nbs")
  from randomise_neighbors_keys [of rnd min_val max_val k nbs] n
  have keys: "map fst nbs' = map fst nbs" by simp
  show ?case
  proof (cases err)
    case None
    obtain es' k'' err' where e: "randomise_edges rnd min_val max_val k' es = (es', k'', err')"
      by (cases "randomise_edges rnd min_val max_val k' es")
    from Cons.IH [of k'] e have "topology es' = topology es" by simp
    with a n None e keys show ?thesis by (simp add: topology_def)
  next
    case (Some e)
    with a n keys show ?thesis by (simp add: topology_def)
  qed
qed

lemma set_random_weights_topology:
  "topology (edges (fst (set_random_weights rnd min_val max_val s))) = topology (edges s)"
proof -
  obtain es' k err where e: "randomise_edges rnd min_val max_val 0 (edges s) = (es', k, err)"
    by (cases "randomise_edges rnd min_val max_val 0 (edges s)")
  with randomise_edges_topology [of rnd min_val max_val 0 "edges s"] show ?thesis
    by (simp add: set_random_weights_def)
qed

lemma solve_keeps_edges:
  "solve_backward_induction s = Some (Inr (s', k, path)) \<Longrightarrow>
    edges s' = edges s \<and> default_edges s' = default_edges s"
  by (auto simp: solve_backward_induction_def split: sum.splits option.splits)

section \<open>The claims\<close>

text \<open>
  C1: for every assignment of integer weights to the topology of the constructor (the
  weights need not even be non-negative), the solver returns, and the cost it returns is
  the least sum of weights over all full paths from \<^verbatim>\<open>'A'\<close> to \<^verbatim>\<open>'J'\<close>. These paths are
  exactly the ones that the exhaustive enumeration lists.
\<close>

theorem solve_minimum_is_brute_force:
  assumes "has_default_topology (edges s)"
  shows "set (all_paths (edges s) (length all_nodes) ''A'') = {p. is_route (edges s) ''A'' p} \<and>
    (\<exists>s' path. solve_backward_induction s =
      Some (Inr (s', Fin (Min (path_cost ` {p. is_route (edges s) ''A'' p})), path)))"
proof -
  note d = default_topology_staged [OF assms]
  from default_solution [OF assms] obtain c nx p k
    where t: "table_inv (edges s) all_nodes [] (c, nx)"
      and r: "solve_backward_induction s =
        Some (Inr (s\<lparr>cost_to_go := c, next_node := nx\<rparr>, Fin k, ''A'' # p))"
      and cA: "cval c ''A'' = Fin k"
    by blast
  have A: "''A'' \<in> set all_nodes" by (simp add: all_nodes_def)
  have all: "set (all_paths (edges s) (length all_nodes) ''A'') = {p. is_route (edges s) ''A'' p}"
    by (rule all_paths_complete [OF d(1) A])
  let ?S = "path_cost ` {p. is_route (edges s) ''A'' p}"
  from paths_cost [OF d(1) t] A cA
  have lower: "\<forall>q \<in> set (all_paths (edges s) (length all_nodes) ''A''). k \<le> path_cost q"
    and upper: "\<exists>q \<in> set (all_paths (edges s) (length all_nodes) ''A''). k = path_cost q"
    by fastforce+
  have "Min ?S = k"
  proof (rule Min_eqI)
    show "finite ?S" unfolding all [symmetric] by simp
    show "k \<le> y" if "y \<in> ?S" for y using that lower unfolding all by auto
    show "k \<in> ?S" using upper unfolding all by auto
  qed
  with r all show ?thesis by blast
qed

theorem solve_minimum_is_brute_force_witness:
  "has_default_topology (edges init_problem) \<and>
   (\<exists>s' path. solve_backward_induction init_problem = Some (Inr (s', Fin 11, path)))"
proof -
  have h: "has_default_topology (edges init_problem)"
    by (simp add: has_default_topology_def init_problem_def)
  note t = solve_minimum_is_brute_force [OF h]
  have "map path_cost (all_paths (edges init_problem) (length all_nodes) ''A'') =
      [13, 19, 15, 13, 14, 20, 16, 14, 14, 15, 13, 11, 14, 15]"
    by (simp add: init_problem_def all_nodes_def init_default_edges_def neighbors_of_def
        path_cost_def triple_weight_def all_paths_numeral)
  then have "path_cost ` set (all_paths (edges init_problem) (length all_nodes) ''A'') =
      set [13, 19, 15, 13, 14, 20, 16, 14, 14, 15, 13, 11, 14, 15]"
    by (simp only: set_map [symmetric])
  then have "path_cost ` {p. is_route (edges init_problem) ''A'' p} =
      set [13, 19, 15, 13, 14, 20, 16, 14, 14, 15, 13, 11, 14, 15]"
    using conjunct1 [OF t] by simp
  then have "Min (path_cost ` {p. is_route (edges init_problem) ''A'' p}) = 11"
    by simp
  with conjunct2 [OF t] h show ?thesis by simp
qed

text \<open>
  C2, as stated: on the default fixture the solver returns the minimum cost 9 and the
  path A, D, F, I, J. The solver does not return the cost 9 there.
\<close>

theorem default_fixture_cost_is_not_9:
  "outcome (solve_backward_induction init_problem)
    \<noteq> Some (Inr (Fin 9, [''A'', ''D'', ''F'', ''I'', ''J'']))"
  by (simp add: outcome_def solve_backward_induction_def solve_tables_def init_problem_def
      init_default_edges_def all_nodes_def initial_tables_def neighbors_of_def py_add_def
      reconstruct_path_def follow.simps dict_get_def)

text \<open>
  C2, amended: on the default fixture the solver returns the minimum cost 11
  (3 + 1 + 3 + 4) and the path A, D, F, I, J.
\<close>

theorem default_fixture_solution:
  "outcome (solve_backward_induction init_problem)
    = Some (Inr (Fin 11, [''A'', ''D'', ''F'', ''I'', ''J'']))"
  by (simp add: outcome_def solve_backward_induction_def solve_tables_def init_problem_def
      init_default_edges_def all_nodes_def initial_tables_def neighbors_of_def py_add_def
      reconstruct_path_def follow.simps dict_get_def)

text \<open>
  C3: let every edge of a node of \<^verbatim>\<open>all_nodes\<close> lead to a node further down that list and
  no inner dict repeat a key (\<open>staged\<close>; the topology of the constructor is of that
  kind), and let either every weight fit a float or every node but \<^verbatim>\<open>'J'\<close> have an
  edge. Then the solver returns, and in the table it leaves the cost of \<^verbatim>\<open>'J'\<close> is 0,
  the cost of any other node is the least of weight plus cost of the successor over its
  edges, and it is infinite for a node without edges.
\<close>

theorem cost_table_bellman:
  assumes "staged (edges s)" and "float_safe (edges s) \<or> no_dead_end (edges s)"
  shows "\<exists>s' k path. solve_backward_induction s = Some (Inr (s', k, path)) \<and>
    cost_to_go s' ''J'' = Some (Fin 0) \<and>
    (\<forall>u \<in> set all_nodes. u \<noteq> ''J'' \<longrightarrow>
      (\<exists>cu. cost_to_go s' u = Some cu \<and>
        (\<forall>(v, w) \<in> set (neighbors_of (edges s) u). cu \<le> cost_plus w (cval (cost_to_go s') v)) \<and>
        (cu = Infinite \<or>
          (\<exists>(v, w) \<in> set (neighbors_of (edges s) u). cu = cost_plus w (cval (cost_to_go s') v))) \<and>
        (neighbors_of (edges s) u = [] \<longrightarrow> cu = Infinite)))"
proof -
  from solve_returns [OF assms] obtain c nx p
    where t: "table_inv (edges s) all_nodes [] (c, nx)"
      and r: "solve_backward_induction s =
        Some (Inr (s\<lparr>cost_to_go := c, next_node := nx\<rparr>, cval c ''A'', ''A'' # p))"
    by blast
  let ?s = "s\<lparr>cost_to_go := c, next_node := nx\<rparr>"
  have J: "cost_to_go ?s ''J'' = Some (Fin 0)" using table_final(1) [OF t] by simp
  have N: "\<exists>cu. cost_to_go ?s u = Some cu \<and>
        (\<forall>(v, w) \<in> set (neighbors_of (edges s) u). cu \<le> cost_plus w (cval (cost_to_go ?s) v)) \<and>
        (cu = Infinite \<or>
          (\<exists>(v, w) \<in> set (neighbors_of (edges s) u). cu = cost_plus w (cval (cost_to_go ?s) v))) \<and>
        (neighbors_of (edges s) u = [] \<longrightarrow> cu = Infinite)"
    if "u \<in> set all_nodes" "u \<noteq> ''J''" for u
  proof -
    note b = bellman [OF t that]
    have "c u = Some (cval c u)" by (rule cval_final [OF t that(1)])
    moreover have "neighbors_of (edges s) u = [] \<longrightarrow> cval c u = Infinite" using b(2) by auto
    ultimately show ?thesis using b by simp
  qed
  from r J N show ?thesis by blast
qed

theorem cost_table_bellman_witness:
  "staged (edges init_problem) \<and> no_dead_end (edges init_problem) \<and>
   (\<exists>s' k path. solve_backward_induction init_problem = Some (Inr (s', k, path)) \<and>
      cost_to_go s' ''J'' = Some (Fin 0) \<and> cost_to_go s' ''H'' = Some (Fin 3)) \<and>
   staged [(''A'', [(''J'', 5), (''B'', 1)])] \<and> float_safe [(''A'', [(''J'', 5), (''B'', 1)])] \<and>
   (\<exists>s' k path.
      solve_backward_induction (init_problem\<lparr>edges := [(''A'', [(''J'', 5), (''B'', 1)])]\<rparr>)
        = Some (Inr (s', k, path)) \<and>
      cost_to_go s' ''J'' = Some (Fin 0) \<and> cost_to_go s' ''B'' = Some Infinite)"
proof -
  let ?es = "[(''A'', [(''J'', 5), (''B'', 1 :: int)])]"
  let ?t = "init_problem\<lparr>edges := ?es\<rparr>"
  have h: "has_default_topology (edges init_problem)"
    by (simp add: has_default_topology_def init_problem_def)
  note d = default_topology_staged [OF h]
  have H: "''H'' \<in> set all_nodes" "''H'' \<noteq> ''J''"
    "neighbors_of (edges init_problem) ''H'' = [(''J'', 3)]"
    by (simp_all add: all_nodes_def init_problem_def init_default_edges_def neighbors_of_def)
  from cost_table_bellman [OF d(1) disjI2 [OF d(2)]] obtain s' k path
    where r: "solve_backward_induction init_problem = Some (Inr (s', k, path))"
      and J: "cost_to_go s' ''J'' = Some (Fin 0)"
      and n: "\<forall>u \<in> set all_nodes. u \<noteq> ''J'' \<longrightarrow>
      (\<exists>cu. cost_to_go s' u = Some cu \<and>
        (\<forall>(v, w) \<in> set (neighbors_of (edges init_problem) u).
           cu \<le> cost_plus w (cval (cost_to_go s') v)) \<and>
        (cu = Infinite \<or>
          (\<exists>(v, w) \<in> set (neighbors_of (edges init_problem) u).
             cu = cost_plus w (cval (cost_to_go s') v))) \<and>
        (neighbors_of (edges init_problem) u = [] \<longrightarrow> cu = Infinite))"
    by (elim exE conjE)
  from n [rule_format, OF H(1) H(2)] obtain cu where cu1: "cost_to_go s' ''H'' = Some cu"
    and cu2: "\<forall>(v, w) \<in> set (neighbors_of (edges init_problem) ''H'').
           cu \<le> cost_plus w (cval (cost_to_go s') v)"
    and cu3: "cu = Infinite \<or> (\<exists>(v, w) \<in> set (neighbors_of (edges init_problem) ''H'').
             cu = cost_plus w (cval (cost_to_go s') v))"
    by (elim exE conjE)
  have "cu \<le> Fin 3" using cu2 J unfolding H(3) by (simp add: cval_def)
  moreover have "cu = Infinite \<or> cu = Fin 3" using cu3 J unfolding H(3) by (simp add: cval_def)
  ultimately have "cu = Fin 3" by (auto simp: less_eq_cost_def)
  with cu1 have cH: "cost_to_go s' ''H'' = Some (Fin 3)" by simp
  have 1: "\<exists>s' k path. solve_backward_induction init_problem = Some (Inr (s', k, path)) \<and>
      cost_to_go s' ''J'' = Some (Fin 0) \<and> cost_to_go s' ''H'' = Some (Fin 3)"
    using r J cH by (intro exI conjI)
  have s: "staged ?es"
    by (simp add: staged_def topology_def all_nodes_def successors_def)
  have f: "float_safe ?es"
    by (simp add: float_safe_def all_nodes_def neighbors_of_def fits_float_small)
  have B: "''B'' \<in> set all_nodes" "''B'' \<noteq> ''J''"
    by (simp_all add: all_nodes_def)
  have B': "neighbors_of (edges ?t) ''B'' = []"
    by (simp add: neighbors_of_def)
  have s2: "staged (edges ?t)" using s by simp
  have f2: "float_safe (edges ?t)" using f by simp
  from cost_table_bellman [OF s2 disjI1 [OF f2]] obtain t' k' path'
    where r': "solve_backward_induction ?t = Some (Inr (t', k', path'))"
      and J': "cost_to_go t' ''J'' = Some (Fin 0)"
      and n': "\<forall>u \<in> set all_nodes. u \<noteq> ''J'' \<longrightarrow>
      (\<exists>cu. cost_to_go t' u = Some cu \<and>
        (\<forall>(v, w) \<in> set (neighbors_of (edges ?t) u).
           cu \<le> cost_plus w (cval (cost_to_go t') v)) \<and>
        (cu = Infinite \<or>
          (\<exists>(v, w) \<in> set (neighbors_of (edges ?t) u).
             cu = cost_plus w (cval (cost_to_go t') v))) \<and>
        (neighbors_of (edges ?t) u = [] \<longrightarrow> cu = Infinite))"
    by (elim exE conjE)
  from n' [rule_format, OF B(1) B(2)] obtain cb where cb1: "cost_to_go t' ''B'' = Some cb"
    and cb2: "neighbors_of (edges ?t) ''B'' = [] \<longrightarrow> cb = Infinite"
    by (elim exE conjE)
  from cb1 cb2 B' have cB: "cost_to_go t' ''B'' = Some Infinite" by simp
  have 2: "\<exists>s' k path. solve_backward_induction ?t = Some (Inr (s', k, path)) \<and>
      cost_to_go s' ''J'' = Some (Fin 0) \<and> cost_to_go s' ''B'' = Some Infinite"
    using r' J' cB by (intro exI conjI)
  from d 1 s f 2 show ?thesis by (intro conjI)
qed

text \<open>
  C4: for every assignment of integer weights to the topology of the constructor, the
  solver returns a finite cost and a path; every two consecutive nodes of the path are
  an edge; \<^verbatim>\<open>get_path_details\<close> then returns one triple for each such pair, and the
  weights of the triples add up to the cost returned.
\<close>

theorem path_valid_and_sums_to_cost:
  assumes "has_default_topology (edges s)"
  shows "\<exists>s' k path ds. solve_backward_induction s = Some (Inr (s', Fin k, path)) \<and>
    (\<forall>(a, b) \<in> set (zip path (tl path)). edge_weight (edges s) a b \<noteq> None) \<and>
    get_path_details s' = Some (Inr ds) \<and>
    map (\<lambda>(a, b, w). (a, b)) ds = zip path (tl path) \<and>
    path_cost ds = k"
proof -
  from default_solution [OF assms] obtain c nx p ds k
    where r: "solve_backward_induction s =
        Some (Inr (s\<lparr>cost_to_go := c, next_node := nx\<rparr>, Fin k, ''A'' # p))"
      and gp: "get_path_details (s\<lparr>cost_to_go := c, next_node := nx\<rparr>) = Some (Inr ds)"
      and z: "map (\<lambda>(a, b, w). (a, b)) ds = zip (''A'' # p) p"
      and e: "\<forall>(a, b, w) \<in> set ds. edge_weight (edges s) a b = Some w"
      and k: "path_cost ds = k"
    by blast
  have "edge_weight (edges s) a b \<noteq> None" if "(a, b) \<in> set (zip (''A'' # p) p)" for a b
  proof -
    from that z have "(a, b) \<in> set (map (\<lambda>(a, b, w). (a, b)) ds)" by simp
    then obtain w where "(a, b, w) \<in> set ds" by auto
    with e show ?thesis by auto
  qed
  with r gp z k show ?thesis by force
qed

theorem path_valid_and_sums_to_cost_witness:
  "has_default_topology (edges init_problem) \<and>
   (\<exists>s' k path ds. solve_backward_induction init_problem = Some (Inr (s', Fin k, path)) \<and>
      (\<forall>(a, b) \<in> set (zip path (tl path)). edge_weight (edges init_problem) a b \<noteq> None) \<and>
      get_path_details s' = Some (Inr ds) \<and>
      map (\<lambda>(a, b, w). (a, b)) ds = zip path (tl path) \<and>
      path_cost ds = k)"
proof -
  have h: "has_default_topology (edges init_problem)"
    by (simp add: has_default_topology_def init_problem_def)
  from path_valid_and_sums_to_cost [OF h] h show ?thesis by simp
qed

text \<open>
  C5: the test of the inner loop is a strict less-than. A step whose candidate cost
  equals the cost already stored for the node changes neither table; and for every
  assignment of integer weights to the topology of the constructor, the link left for a
  node is the first of its neighbours, in the order of the dict, whose candidate equals
  the final cost of the node.
\<close>

theorem tie_break_first_minimum:
  assumes "has_default_topology (edges s)"
  shows "(\<forall>u v w rest c nx cv cu. c v = Some cv \<longrightarrow> c u = Some cu \<longrightarrow> py_add w cv = Inr cu \<longrightarrow>
      relax u ((v, w) # rest) (c, nx) = relax u rest (c, nx)) \<and>
    (\<exists>s' k path. solve_backward_induction s = Some (Inr (s', k, path)) \<and>
    (\<forall>u \<in> set all_nodes. u \<noteq> ''J'' \<longrightarrow>
      next_node s' u = Some (map_option fst
        (List.find (\<lambda>(v, w). cost_plus w (cval (cost_to_go s') v) = cval (cost_to_go s') u)
          (neighbors_of (edges s) u)))))"
proof -
  note d = default_topology_staged [OF assms]
  from solve_returns [OF d(1)] d(2) obtain c nx p
    where t: "table_inv (edges s) all_nodes [] (c, nx)"
      and r: "solve_backward_induction s =
        Some (Inr (s\<lparr>cost_to_go := c, next_node := nx\<rparr>, cval c ''A'', ''A'' # p))"
    by blast
  let ?s = "s\<lparr>cost_to_go := c, next_node := nx\<rparr>"
  have "next_node ?s u = Some (map_option fst
        (List.find (\<lambda>(v, w). cost_plus w (cval (cost_to_go ?s) v) = cval (cost_to_go ?s) u)
          (neighbors_of (edges s) u)))"
    if "u \<in> set all_nodes" "u \<noteq> ''J''" for u
    using first_minimum [OF t that] table_final(6) [OF t d(2) that(1)] by simp
  with r have "\<exists>s' k path. solve_backward_induction s = Some (Inr (s', k, path)) \<and>
    (\<forall>u \<in> set all_nodes. u \<noteq> ''J'' \<longrightarrow>
      next_node s' u = Some (map_option fst
        (List.find (\<lambda>(v, w). cost_plus w (cval (cost_to_go s') v) = cval (cost_to_go s') u)
          (neighbors_of (edges s) u))))"
    by blast
  moreover have "\<forall>u v w rest c nx cv cu. c v = Some cv \<longrightarrow> c u = Some cu \<longrightarrow>
      py_add w cv = Inr cu \<longrightarrow> relax u ((v, w) # rest) (c, nx) = relax u rest (c, nx)"
    by (simp add: cost_lt_less)
  ultimately show ?thesis by (intro conjI)
qed

theorem tie_break_first_minimum_witness:
  "has_default_topology (edges init_problem) \<and>
   relax ''B'' [(''F'', 4)]
     ([''F'' \<mapsto> Fin 7, ''B'' \<mapsto> Fin 11], [''B'' \<mapsto> Some ''E''])
     = Inr ([''F'' \<mapsto> Fin 7, ''B'' \<mapsto> Fin 11], [''B'' \<mapsto> Some ''E'']) \<and>
   (\<exists>s' k path. solve_backward_induction init_problem = Some (Inr (s', k, path)) \<and>
      (\<forall>u \<in> set all_nodes. u \<noteq> ''J'' \<longrightarrow>
        next_node s' u = Some (map_option fst
          (List.find (\<lambda>(v, w). cost_plus w (cval (cost_to_go s') v) = cval (cost_to_go s') u)
            (neighbors_of (edges init_problem) u)))))"
proof -
  have h: "has_default_topology (edges init_problem)"
    by (simp add: has_default_topology_def init_problem_def)
  note t = tie_break_first_minimum [OF h]
  let ?c = "[''F'' \<mapsto> Fin 7, ''B'' \<mapsto> Fin 11]" and ?nx = "[''B'' \<mapsto> Some ''E'']"
  from t have step: "\<forall>u v w rest c nx cv cu. c v = Some cv \<longrightarrow> c u = Some cu \<longrightarrow>
      py_add w cv = Inr cu \<longrightarrow> relax u ((v, w) # rest) (c, nx) = relax u rest (c, nx)"
    by (rule conjunct1)
  have "relax ''B'' ((''F'', 4) # []) (?c, ?nx) = relax ''B'' [] (?c, ?nx)"
    by (rule step [rule_format, where cv = "Fin 7" and cu = "Fin 11"])
      (simp_all add: py_add_def)
  then have 1: "relax ''B'' [(''F'', 4)] (?c, ?nx) = Inr (?c, ?nx)"
    by (simp only: relax.simps)
  from h 1 conjunct2 [OF t] show ?thesis by (intro conjI)
qed

text \<open>
  C6, as stated: \<^verbatim>\<open>get_path_details\<close> called before any solve signals an error. On a
  freshly constructed object it signals nothing.
\<close>

theorem path_details_before_solve_no_error:
  "\<not> signals_error (get_path_details init_problem)"
  by (simp add: signals_error_def get_path_details_def reconstruct_path_def follow.simps
      dict_get_def init_problem_def)

text \<open>
  C6, amended: while no solve has run the table \<^verbatim>\<open>next_node\<close> is the empty dict, and
  \<^verbatim>\<open>get_path_details\<close> then returns the empty list of triples without raising.
\<close>

theorem path_details_before_solve:
  assumes "next_node s = Map.empty"
  shows "get_path_details s = Some (Inr [])"
  using assms by (simp add: get_path_details_def reconstruct_path_def follow.simps dict_get_def)

theorem path_details_before_solve_witness:
  "next_node init_problem = Map.empty \<and> get_path_details init_problem = Some (Inr [])"
proof -
  have h: "next_node init_problem = Map.empty" by (simp add: init_problem_def)
  from path_details_before_solve [OF h] h show ?thesis by simp
qed

text \<open>
  C7: on an object with the topology of the constructor, \<^verbatim>\<open>set_random_weights\<close> with
  \<open>min > max\<close> raises (the \<^verbatim>\<open>ValueError\<close> of \<^verbatim>\<open>random.randint\<close>, at the first edge)
  and leaves the object as it was; with \<open>min \<le> max\<close> it raises nothing, gives every
  edge a weight of \<open>[min, max]\<close> and keeps the topology.
\<close>

theorem set_random_weights_range:
  assumes "has_default_topology (edges s)"
  shows "(max_val < min_val \<longrightarrow>
            set_random_weights rnd min_val max_val s = (s, Some ValueError)) \<and>
         (min_val \<le> max_val \<longrightarrow>
            (\<exists>es'. set_random_weights rnd min_val max_val s = (s\<lparr>edges := es'\<rparr>, None) \<and>
               topology es' = topology (edges s) \<and>
               (\<forall>(u, nbs) \<in> set es'. \<forall>(v, w) \<in> set nbs. min_val \<le> w \<and> w \<le> max_val)))"
proof (intro conjI impI)
  assume "max_val < min_val"
  then show "set_random_weights rnd min_val max_val s = (s, Some ValueError)"
    using default_topology_has_edge [OF assms]
    by (simp add: set_random_weights_def randomise_edges_empty_range)
next
  assume "min_val \<le> max_val"
  from randomise_edges_ok [OF this, of rnd 0 "edges s"]
  show "\<exists>es'. set_random_weights rnd min_val max_val s = (s\<lparr>edges := es'\<rparr>, None) \<and>
               topology es' = topology (edges s) \<and>
               (\<forall>(u, nbs) \<in> set es'. \<forall>(v, w) \<in> set nbs. min_val \<le> w \<and> w \<le> max_val)"
    by (auto simp: set_random_weights_def)
qed

theorem set_random_weights_range_witness:
  "has_default_topology (edges init_problem) \<and> (2::int) < 5 \<and>
   set_random_weights (\<lambda>k. 7 * k) 5 2 init_problem = (init_problem, Some ValueError) \<and>
   (1::int) \<le> 10 \<and>
   (\<exists>es'. set_random_weights (\<lambda>k. 7 * k) 1 10 init_problem = (init_problem\<lparr>edges := es'\<rparr>, None) \<and>
      topology es' = topology (edges init_problem) \<and>
      (\<forall>(u, nbs) \<in> set es'. \<forall>(v, w) \<in> set nbs. 1 \<le> w \<and> w \<le> 10))"
proof -
  have h: "has_default_topology (edges init_problem)"
    by (simp add: has_default_topology_def init_problem_def)
  from set_random_weights_range [OF h, of 2 5 "\<lambda>k. 7 * k"]
    set_random_weights_range [OF h, of 10 1 "\<lambda>k. 7 * k"] h
  show ?thesis by simp
qed

text \<open>
  C8: \<^verbatim>\<open>set_edge_weight\<close> on a pair that is not an edge changes nothing. On an edge it
  keeps the topology, stores the weight for that pair, keeps the weight of every other
  pair and touches no other attribute.
\<close>

theorem set_edge_weight_spec:
  "(edge_weight (edges s) from_node to_node = None \<longrightarrow>
      set_edge_weight from_node to_node weight s = s) \<and>
   (edge_weight (edges s) from_node to_node \<noteq> None \<longrightarrow>
      topology (edges (set_edge_weight from_node to_node weight s)) = topology (edges s) \<and>
      edge_weight (edges (set_edge_weight from_node to_node weight s)) from_node to_node
        = Some weight \<and>
      (\<forall>a b. (a, b) \<noteq> (from_node, to_node) \<longrightarrow>
         edge_weight (edges (set_edge_weight from_node to_node weight s)) a b
           = edge_weight (edges s) a b) \<and>
      set_edge_weight from_node to_node weight s
        = s\<lparr>edges := edges (set_edge_weight from_node to_node weight s)\<rparr>)"
  by (auto simp: set_edge_weight_def edge_weight_def update_conv' topology_update keys_update
      split: option.splits)

theorem set_edge_weight_spec_witness:
  "edge_weight (edges init_problem) ''A'' ''J'' = None \<and>
   set_edge_weight ''A'' ''J'' 7 init_problem = init_problem \<and>
   edge_weight (edges init_problem) ''D'' ''F'' \<noteq> None \<and>
   topology (edges (set_edge_weight ''D'' ''F'' 7 init_problem)) = topology (edges init_problem) \<and>
   edge_weight (edges (set_edge_weight ''D'' ''F'' 7 init_problem)) ''D'' ''F'' = Some 7 \<and>
   edge_weight (edges (set_edge_weight ''D'' ''F'' 7 init_problem)) ''D'' ''G'' = Some 5"
proof -
  have h1: "edge_weight (edges init_problem) ''A'' ''J'' = None"
    and h2: "edge_weight (edges init_problem) ''D'' ''F'' \<noteq> None"
    and h3: "edge_weight (edges init_problem) ''D'' ''G'' = Some 5"
    by (simp_all add: edge_weight_def init_problem_def init_default_edges_def)
  from set_edge_weight_spec [of init_problem "''A''" "''J''" 7]
    set_edge_weight_spec [of init_problem "''D''" "''F''" 7] h1 h2 h3
  show ?thesis by simp
qed

text \<open>
  C9: for \<open>min \<le> max\<close>, on an object whose \<^verbatim>\<open>default_edges\<close> are those of the
  constructor, \<^verbatim>\<open>set_random_weights\<close> raises nothing and a following
  \<^verbatim>\<open>reset_to_default\<close> leaves \<^verbatim>\<open>edges\<close> equal to the \<^verbatim>\<open>edges\<close> of a freshly constructed
  object.
\<close>

theorem reset_after_random:
  assumes "min_val \<le> max_val" and "default_edges s = default_edges init_problem"
  shows "snd (set_random_weights rnd min_val max_val s) = None \<and>
    edges (reset_to_default (fst (set_random_weights rnd min_val max_val s)))
      = edges init_problem"
proof -
  from randomise_edges_ok [OF assms(1), of rnd 0 "edges s"] obtain es' k'
    where "randomise_edges rnd min_val max_val 0 (edges s) = (es', k', None)" by blast
  then show ?thesis using assms(2)
    by (simp add: set_random_weights_def reset_to_default_def init_problem_def)
qed

theorem reset_after_random_witness:
  "(1::int) \<le> 10 \<and> default_edges init_problem = default_edges init_problem \<and>
   snd (set_random_weights (\<lambda>k. 7 * k) 1 10 init_problem) = None \<and>
   edges (reset_to_default (fst (set_random_weights (\<lambda>k. 7 * k) 1 10 init_problem)))
     = edges init_problem"
proof -
  have h: "(1::int) \<le> 10" by simp
  from reset_after_random [OF h refl, of "\<lambda>k. 7 * k"] show ?thesis by simp
qed

text \<open>
  C10: for every assignment of integer weights to the topology of the constructor, the
  solver and a following \<^verbatim>\<open>get_path_details\<close> return. The path returned is the walk
  along the links of \<^verbatim>\<open>next_node\<close> that stops at the first node without a link, and every
  link of the table leads from a node to a node of the next stage.
\<close>

theorem reconstruct_path_terminates:
  assumes "has_default_topology (edges s)"
  shows "\<exists>s' k path ds. solve_backward_induction s = Some (Inr (s', k, path)) \<and>
    reconstruct_path s' = Some path \<and>
    get_path_details s' = Some (Inr ds) \<and>
    linked (next_node s') path \<and>
    (\<forall>u v. dict_get (next_node s') u = Some v \<longrightarrow>
       (\<exists>i. stage_of u = Some i \<and> stage_of v = Some (Suc i)))"
proof -
  from default_solution [OF assms] obtain c nx p ds k
    where t: "table_inv (edges s) all_nodes [] (c, nx)"
      and l: "linked nx (''A'' # p)"
      and rp: "reconstruct_path (s\<lparr>cost_to_go := c, next_node := nx\<rparr>) = Some (''A'' # p)"
      and r: "solve_backward_induction s =
        Some (Inr (s\<lparr>cost_to_go := c, next_node := nx\<rparr>, Fin k, ''A'' # p))"
      and gp: "get_path_details (s\<lparr>cost_to_go := c, next_node := nx\<rparr>) = Some (Inr ds)"
    by blast
  have "\<exists>i. stage_of u = Some i \<and> stage_of v = Some (Suc i)" if "dict_get nx u = Some v" for u v
  proof -
    from link_Some [OF t that] obtain w where "(v, w) \<in> set (neighbors_of (edges s) u)"
      by blast
    then show ?thesis by (rule default_stage_step [OF assms])
  qed
  with l rp r gp show ?thesis by force
qed

theorem reconstruct_path_terminates_witness:
  "has_default_topology (edges init_problem) \<and>
   (\<exists>s' k path ds. solve_backward_induction init_problem = Some (Inr (s', k, path)) \<and>
      reconstruct_path s' = Some path \<and>
      get_path_details s' = Some (Inr ds) \<and>
      linked (next_node s') path \<and>
      (\<forall>u v. dict_get (next_node s') u = Some v \<longrightarrow>
         (\<exists>i. stage_of u = Some i \<and> stage_of v = Some (Suc i))))"
proof -
  have h: "has_default_topology (edges init_problem)"
    by (simp add: has_default_topology_def init_problem_def)
  from reconstruct_path_terminates [OF h] h show ?thesis by simp
qed

end
